theory Spec2Isabelle
  imports Complex_Main "HOL-Library.Word" "HOL-Library.Multiset"
begin

unbundle bit_operations_syntax

section \<open>PassGen 98: the generation core of main.js\<close>

text \<open>
  The model follows \<^verbatim>\<open>src/javascript/main.js\<close>. JavaScript numbers that the
  program uses as integers are \<open>int\<close>; the bitwise operators go through the language's
  \<open>ToInt32\<close> conversion, which is written out. The entropy source
  \<^verbatim>\<open>crypto.getRandomValues\<close> is a sequence of 32-bit words together with the number
  of words drawn so far. A call that never returns has the value \<open>None\<close>, a thrown
  exception is \<open>Inl\<close>, a returned value comes with the new draw count.
\<close>

subsection \<open>JavaScript primitives used by the program\<close>

text \<open>\<open>ToInt32\<close> of ECMAScript: reduce modulo \<open>2^32\<close>, read as two's complement.\<close>

definition ToInt32 :: "int \<Rightarrow> int" where
  "ToInt32 x = (let b = x mod 2 ^ 32 in if 2 ^ 31 \<le> b then b - 2 ^ 32 else b)"

text \<open>\<^verbatim>\<open>a << n\<close>, \<^verbatim>\<open>a | b\<close> and \<^verbatim>\<open>a & b\<close> on numbers.\<close>

definition js_shl :: "int \<Rightarrow> nat \<Rightarrow> int" where
  "js_shl a n = ToInt32 (ToInt32 a * 2 ^ (n mod 32))"

definition js_or :: "int \<Rightarrow> int \<Rightarrow> int" where
  "js_or a b = ToInt32 a OR ToInt32 b"

definition js_and :: "int \<Rightarrow> int \<Rightarrow> int" where
  "js_and a b = ToInt32 a AND ToInt32 b"

text \<open>\<^verbatim>\<open>Math.round\<close>: the nearest integer, a tie going up.\<close>

definition js_round :: "real \<Rightarrow> int" where
  "js_round x = \<lfloor>x + 1 / 2\<rfloor>"

text \<open>
  Arrays and strings read out of range give \<^verbatim>\<open>undefined\<close>, here \<open>None\<close>; an array
  element is therefore an \<open>option\<close>. Writing at an index past the end extends the array
  with holes (which read as \<^verbatim>\<open>undefined\<close>); writing at a key that is no array index
  leaves the elements alone.
\<close>

definition js_index :: "string \<Rightarrow> int \<Rightarrow> char option" where
  "js_index s k = (if 0 \<le> k \<and> k < int (length s) then Some (s ! nat k) else None)"

definition js_get :: "'a option list \<Rightarrow> int \<Rightarrow> 'a option" where
  "js_get arr k = (if 0 \<le> k \<and> k < int (length arr) then arr ! nat k else None)"

definition js_set :: "'a option list \<Rightarrow> int \<Rightarrow> 'a option \<Rightarrow> 'a option list" where
  "js_set arr k v =
     (if k < 0 \<or> 2 ^ 32 - 1 \<le> k then arr
      else if k < int (length arr) then arr[nat k := v]
      else arr @ replicate (nat k - length arr) None @ [v])"

text \<open>\<^verbatim>\<open>chars.join("")\<close>: \<^verbatim>\<open>undefined\<close> elements and holes contribute nothing.\<close>

definition js_join :: "char option list \<Rightarrow> string" where
  "js_join arr = concat (map (\<lambda>c. case c of None \<Rightarrow> [] | Some x \<Rightarrow> [x]) arr)"

subsection \<open>Character pools\<close>

record pool =
  key :: string
  chars :: string

definition POOLS_upper :: string where
  "POOLS_upper = ''ABCDEFGHIJKLMNOPQRSTUVWXYZ''"

definition POOLS_lower :: string where
  "POOLS_lower = ''abcdefghijklmnopqrstuvwxyz''"

definition POOLS_digits :: string where
  "POOLS_digits = ''0123456789''"

definition POOLS_symbols :: string where
  "POOLS_symbols = ''!@#$%^&*()-_=+[]{}|;:,.<>?/~''"

definition AMBIGUOUS :: "char set" where
  "AMBIGUOUS = set ''0Ol1I|B8S5''"

subsection \<open>The entropy source and the sampler\<close>

datatype js_error = RangeError

type_synonym entropy = "nat \<Rightarrow> 32 word"

type_synonym 'a outcome = "(js_error + 'a \<times> nat) option"

text \<open>
  \<^verbatim>\<open>let mask = 1; while (mask < max) mask = (mask << 1) | 1;\<close>
  The loop runs forever once the shift has overflowed to \<open>-1\<close>. The source's
  \<open>mask\<close> and \<open>max\<close> are \<open>maskv\<close> and \<open>maxv\<close> here, the plain names being constants
  of the library.
\<close>

partial_function (option) mask_loop :: "int \<Rightarrow> int \<Rightarrow> int option" where
  "mask_loop maskv maxv =
     (if maskv < maxv then mask_loop (js_or (js_shl maskv 1) 1) maxv else Some maskv)"

declare mask_loop.simps [code]

text \<open>
  \<^verbatim>\<open>do { crypto.getRandomValues(buf); val = buf[0] & mask; } while (val >= max);\<close>
  \<open>buf[0]\<close> is the unsigned value of the word drawn at position \<open>pos\<close>.
\<close>

partial_function (option) draw_loop :: "entropy \<Rightarrow> int \<Rightarrow> int \<Rightarrow> nat \<Rightarrow> (int \<times> nat) option" where
  "draw_loop rng maskv maxv pos =
     (let val = js_and (uint (rng pos)) maskv
      in if maxv \<le> val then draw_loop rng maskv maxv (Suc pos) else Some (val, Suc pos))"

declare draw_loop.simps [code]

definition secureRandInt :: "entropy \<Rightarrow> int \<Rightarrow> nat \<Rightarrow> int outcome" where
  "secureRandInt rng maxv pos =
     (if maxv \<le> 0 then Some (Inl RangeError)
      else case mask_loop 1 maxv of
             None \<Rightarrow> None
           | Some maskv \<Rightarrow>
               (case draw_loop rng maskv maxv pos of
                  None \<Rightarrow> None
                | Some (val, pos') \<Rightarrow> Some (Inr (val, pos'))))"

subsection \<open>Fisher-Yates shuffle\<close>

text \<open>\<^verbatim>\<open>[arr[i], arr[j]] = [arr[j], arr[i]]\<close>: both reads happen before both writes.\<close>

definition js_swap :: "'a option list \<Rightarrow> int \<Rightarrow> int \<Rightarrow> 'a option list" where
  "js_swap arr i j = js_set (js_set arr i (js_get arr j)) j (js_get arr i)"

text \<open>The body of \<^verbatim>\<open>for (let i = arr.length - 1; i > 0; i--)\<close>, from \<open>i\<close> down to 1.\<close>

fun shuffle_loop :: "entropy \<Rightarrow> nat \<Rightarrow> 'a option list \<Rightarrow> nat \<Rightarrow> 'a option list outcome" where
  "shuffle_loop rng 0 arr pos = Some (Inr (arr, pos))"
| "shuffle_loop rng (Suc i) arr pos =
     (case secureRandInt rng (int (Suc i) + 1) pos of
        None \<Rightarrow> None
      | Some (Inl e) \<Rightarrow> Some (Inl e)
      | Some (Inr (j, pos')) \<Rightarrow> shuffle_loop rng i (js_swap arr (int (Suc i)) j) pos')"

text \<open>For the empty array \<open>arr.length - 1\<close> is \<open>-1\<close> and the loop does not run, as for 0.\<close>

definition secureShuffle :: "entropy \<Rightarrow> 'a option list \<Rightarrow> nat \<Rightarrow> 'a option list outcome" where
  "secureShuffle rng arr pos = shuffle_loop rng (length arr - 1) arr pos"

subsection \<open>The generation algorithm\<close>

text \<open>
  The values \<^verbatim>\<open>generatePassword\<close> reads from the page; \<open>length_cfg\<close> is its
  \<open>length\<close>, the integer parsed from the slider.
\<close>

record config =
  length_cfg :: int
  useUpper :: bool
  useLower :: bool
  useDigits :: bool
  useSymbols :: bool
  noAmbig :: bool
  guarantee :: bool

text \<open>
  The two early returns set a status message and display no password; a \<open>RangeError\<close>
  thrown by the sampler would leave the function as well.
\<close>

datatype gen_error = NoTypeSelected | NoCharsRemain | Thrown js_error

definition activePools :: "config \<Rightarrow> pool list" where
  "activePools cfg =
     (if useUpper cfg then [\<lparr>key = ''upper'', chars = POOLS_upper\<rparr>] else []) @
     (if useLower cfg then [\<lparr>key = ''lower'', chars = POOLS_lower\<rparr>] else []) @
     (if useDigits cfg then [\<lparr>key = ''digits'', chars = POOLS_digits\<rparr>] else []) @
     (if useSymbols cfg then [\<lparr>key = ''symbols'', chars = POOLS_symbols\<rparr>] else [])"

definition filteredPools :: "config \<Rightarrow> pool list" where
  "filteredPools cfg =
     filter (\<lambda>p. 0 < length (chars p))
       (map (\<lambda>p. p\<lparr>chars := (if noAmbig cfg then filter (\<lambda>c. c \<notin> AMBIGUOUS) (chars p) else chars p)\<rparr>)
         (activePools cfg))"

definition alphabet :: "config \<Rightarrow> string" where
  "alphabet cfg = concat (map chars (filteredPools cfg))"

text \<open>\<^verbatim>\<open>for (const pool of filteredPools) if (pool.chars.length > 0) chars.push(...)\<close>\<close>

fun seed_loop :: "entropy \<Rightarrow> pool list \<Rightarrow> char option list \<Rightarrow> nat \<Rightarrow> char option list outcome" where
  "seed_loop rng [] cs pos = Some (Inr (cs, pos))"
| "seed_loop rng (p # ps) cs pos =
     (if 0 < length (chars p) then
        (case secureRandInt rng (int (length (chars p))) pos of
           None \<Rightarrow> None
         | Some (Inl e) \<Rightarrow> Some (Inl e)
         | Some (Inr (k, pos')) \<Rightarrow> seed_loop rng ps (cs @ [js_index (chars p) k]) pos')
      else seed_loop rng ps cs pos)"

text \<open>\<^verbatim>\<open>for (let i = 0; i < remaining; i++) chars.push(alphabet[secureRandInt(alphabet.length)])\<close>\<close>

fun fill_loop :: "entropy \<Rightarrow> string \<Rightarrow> nat \<Rightarrow> char option list \<Rightarrow> nat \<Rightarrow> char option list outcome" where
  "fill_loop rng alph 0 cs pos = Some (Inr (cs, pos))"
| "fill_loop rng alph (Suc n) cs pos =
     (case secureRandInt rng (int (length alph)) pos of
        None \<Rightarrow> None
      | Some (Inl e) \<Rightarrow> Some (Inl e)
      | Some (Inr (k, pos')) \<Rightarrow> fill_loop rng alph n (cs @ [js_index alph k]) pos')"

text \<open>
  \<^verbatim>\<open>generatePassword\<close> up to \<^verbatim>\<open>const password = chars.join("")\<close>. A negative
  \<open>remaining\<close> runs the fill loop zero times.
\<close>

definition generatePassword :: "entropy \<Rightarrow> config \<Rightarrow> nat \<Rightarrow> (gen_error + string \<times> nat) option" where
  "generatePassword rng cfg pos =
     (if length (activePools cfg) = 0 then Some (Inl NoTypeSelected)
      else if length (filteredPools cfg) = 0 then Some (Inl NoCharsRemain)
      else
        (case (if guarantee cfg then seed_loop rng (filteredPools cfg) [] pos
               else Some (Inr ([], pos))) of
           None \<Rightarrow> None
         | Some (Inl e) \<Rightarrow> Some (Inl (Thrown e))
         | Some (Inr (seeded, pos1)) \<Rightarrow>
             (let remaining = length_cfg cfg - int (length seeded) in
              case fill_loop rng (alphabet cfg) (nat remaining) seeded pos1 of
                None \<Rightarrow> None
              | Some (Inl e) \<Rightarrow> Some (Inl (Thrown e))
              | Some (Inr (filled, pos2)) \<Rightarrow>
                  (case secureShuffle rng filled pos2 of
                     None \<Rightarrow> None
                   | Some (Inl e) \<Rightarrow> Some (Inl (Thrown e))
                   | Some (Inr (shuffled, pos3)) \<Rightarrow> Some (Inr (js_join shuffled, pos3))))))"

subsection \<open>Entropy estimate\<close>

text \<open>
  \<^verbatim>\<open>Math.round(password.length * Math.log2(alphabetSize))\<close> is computed in IEEE 754
  double precision. A finite double is modelled by the real number it denotes.

  \<open>rne\<close> rounds a real to the nearest integer, a tie going to the even one. \<open>quantum x\<close>
  is the spacing of the doubles around \<open>x\<close>: 53 significant bits down to the exponent
  \<open>-1022\<close>, a fixed spacing of \<open>2^-1074\<close> below it. \<open>fl x\<close> is the double nearest to
  \<open>x\<close>, before the overflow check.
\<close>

definition rne :: "real \<Rightarrow> int" where
  "rne q =
     (let f = \<lfloor>q\<rfloor>; r = q - real_of_int f
      in if r < 1 / 2 then f else if 1 / 2 < r then f + 1 else if even f then f else f + 1)"

definition quantum :: "real \<Rightarrow> real" where
  "quantum x = 2 powr real_of_int (max \<lfloor>log 2 \<bar>x\<bar>\<rfloor> (- 1022) - 52)"

definition fl :: "real \<Rightarrow> real" where
  "fl x = (if x = 0 then 0 else real_of_int (rne (x / quantum x)) * quantum x)"

text \<open>
  \<^verbatim>\<open>calcEntropy\<close>. \<open>Math.log2(0)\<close> is \<open>-Infinity\<close>, and its product with 0 is \<open>NaN\<close>.
  For a positive argument the language leaves the value of \<open>Math.log2\<close> to the
  implementation, so the function is a parameter here: \<open>Math_log2 n\<close> is the double the
  platform returns for \<open>n\<close>. \<open>password.length\<close> is an integer below \<open>2^53\<close> and converts
  exactly. The product is rounded to a double, and is infinite from \<open>2^1024\<close> on;
  \<^verbatim>\<open>Math.round\<close> leaves \<open>NaN\<close> and the infinities unchanged.
\<close>

datatype js_number = Num int | PosInfinity | NegInfinity | NaN

definition calcEntropy :: "(nat \<Rightarrow> real) \<Rightarrow> string \<Rightarrow> nat \<Rightarrow> js_number" where
  "calcEntropy Math_log2 password alphabetSize =
     (if alphabetSize = 0 then (if length password = 0 then NaN else NegInfinity)
      else
        (let p = fl (real (length password) * Math_log2 alphabetSize)
         in if 2 ^ 1024 \<le> \<bar>p\<bar> then (if 0 < p then PosInfinity else NegInfinity)
            else Num (js_round p)))"

text \<open>
  What is assumed of the platform's logarithm: on the sizes a string can have it is
  within \<open>2^-40\<close> of the true logarithm. One such function is the correctly rounded
  logarithm.
\<close>

definition accurate_log2 :: "(nat \<Rightarrow> real) \<Rightarrow> bool" where
  "accurate_log2 Math_log2 =
     (\<forall>n. 0 < n \<longrightarrow> n < 2 ^ 32 \<longrightarrow> \<bar>Math_log2 n - log 2 (real n)\<bar> \<le> 1 / 2 ^ 40)"

definition log2_rounded :: "nat \<Rightarrow> real" where
  "log2_rounded n = fl (log 2 (real n))"

subsection \<open>Entropy sequences on which the sampler returns\<close>

text \<open>
  A word is accepted for \<open>maxv\<close> when the rejection loop of \<open>secureRandInt maxv\<close>
  leaves on it. An entropy sequence is fair when, from every position on, an accepted
  word comes up for every \<open>maxv\<close> the sampler can handle. These two predicates describe
  the entropy source, they are not part of the program.
\<close>

definition accepts :: "int \<Rightarrow> 32 word \<Rightarrow> bool" where
  "accepts maxv w =
     (case mask_loop 1 maxv of None \<Rightarrow> False | Some m \<Rightarrow> js_and (uint w) m < maxv)"

definition fair :: "entropy \<Rightarrow> bool" where
  "fair rng = (\<forall>maxv pos. 0 < maxv \<longrightarrow> maxv < 2 ^ 31 \<longrightarrow> (\<exists>n\<ge>pos. accepts maxv (rng n)))"

subsection \<open>Concrete entropy sequences\<close>

text \<open>Sequences used to run the program on concrete inputs.\<close>

definition zeros :: entropy where
  "zeros n = 0"

definition counting :: entropy where
  "counting n = word_of_nat n + 6"

definition one_then_zeros :: entropy where
  "one_then_zeros n = (if n = 0 then 1 else 0)"

definition ones :: entropy where
  "ones n = 4294967295"

subsection \<open>Concrete configurations\<close>

definition cfg_all :: config where
  "cfg_all = \<lparr>length_cfg = 12, useUpper = True, useLower = True, useDigits = True,
     useSymbols = True, noAmbig = True, guarantee = True\<rparr>"

definition cfg_short :: config where
  "cfg_short = \<lparr>length_cfg = 2, useUpper = True, useLower = True, useDigits = True,
     useSymbols = True, noAmbig = False, guarantee = True\<rparr>"

section \<open>Properties\<close>

subsection \<open>Bit operations and the mask loop\<close>

lemma ToInt32_range: "- (2 ^ 31) \<le> ToInt32 x \<and> ToInt32 x < 2 ^ 31"
proof -
  have "0 \<le> x mod 2 ^ 32" "x mod 2 ^ 32 < 2 ^ 32" by simp_all
  then show ?thesis unfolding ToInt32_def Let_def by auto
qed

lemma ToInt32_id: "- (2 ^ 31) \<le> x \<Longrightarrow> x < 2 ^ 31 \<Longrightarrow> ToInt32 x = x"
proof (cases "0 \<le> x")
  case True
  assume "x < 2 ^ 31"
  with True have "x mod 2 ^ 32 = x" by (simp add: mod_pos_pos_trivial)
  with \<open>x < 2 ^ 31\<close> show ?thesis by (simp add: ToInt32_def)
next
  case False
  assume lo: "- (2 ^ 31) \<le> x"
  have "(x + 2 ^ 32) mod 2 ^ 32 = x + 2 ^ 32"
    using lo False by (intro mod_pos_pos_trivial) auto
  then have "x mod 2 ^ 32 = x + 2 ^ 32" by simp
  with lo False show ?thesis by (simp add: ToInt32_def)
qed

lemma js_or_one: "js_or y 1 = ToInt32 y + of_bool (even (ToInt32 y))"
  by (simp add: js_or_def ToInt32_id or_one_eq)

lemma js_or_one_range: "- (2 ^ 31) \<le> js_or y 1 \<and> js_or y 1 < 2 ^ 31"
proof -
  have r: "- (2 ^ 31) \<le> ToInt32 y" "ToInt32 y < 2 ^ 31" using ToInt32_range [of y] by auto
  show ?thesis
  proof (cases "even (ToInt32 y)")
    case True
    have "ToInt32 y \<noteq> 2 ^ 31 - 1" using True by auto
    with r True show ?thesis by (simp add: js_or_one)
  next
    case False
    with r show ?thesis by (simp add: js_or_one)
  qed
qed

lemma mask_step: "k < 31 \<Longrightarrow> js_or (js_shl (2 ^ k - 1) (Suc 0)) 1 = 2 * 2 ^ k - 1"
proof -
  assume k: "k < 31"
  define a :: int where "a = 2 ^ k"
  have "(2::int) ^ k \<le> 2 ^ 30" using k by (intro power_increasing) auto
  then have p: "a \<le> 1073741824" by (simp add: a_def)
  have q: "1 \<le> a" by (simp add: a_def)
  have t1: "ToInt32 (a - 1) = a - 1"
    by (rule ToInt32_id) (use p q in simp_all)
  have t2: "ToInt32 (a * 2 - 2) = a * 2 - 2"
    by (rule ToInt32_id) (use p q in simp_all)
  have "js_shl (a - 1) (Suc 0) = a * 2 - 2" by (simp add: js_shl_def t1 t2 algebra_simps)
  then have "js_or (js_shl (a - 1) (Suc 0)) 1 = a * 2 - 2 + 1"
    using t2 by (simp add: js_or_one)
  then show ?thesis by (simp add: a_def)
qed

lemma mask_step_overflow: "js_or (js_shl 2147483647 (Suc 0)) 1 = - 1"
  by (simp add: js_or_def js_shl_def ToInt32_def)

lemma mask_step_stuck: "js_or (js_shl (- 1) (Suc 0)) 1 = - 1"
  by (simp add: js_or_def js_shl_def ToInt32_def)

lemma mask_loop_total_aux:
  "31 - k = d \<Longrightarrow> k \<le> 31 \<Longrightarrow> maxv < 2 ^ 31 \<Longrightarrow>
   \<exists>K. k \<le> K \<and> K \<le> 31 \<and> mask_loop (2 ^ k - 1) maxv = Some (2 ^ K - 1) \<and>
       maxv \<le> 2 ^ K - 1 \<and> (\<forall>j. k \<le> j \<longrightarrow> j < K \<longrightarrow> 2 ^ j - 1 < maxv)"
proof (induction d arbitrary: k)
  case 0
  then have k: "k = 31" by simp
  have "mask_loop (2 ^ 31 - 1) maxv = Some (2 ^ 31 - 1)"
    using \<open>maxv < 2 ^ 31\<close> by (subst mask_loop.simps) simp
  with k \<open>maxv < 2 ^ 31\<close> show ?case by (intro exI [of _ 31]) simp
next
  case (Suc d)
  then have k: "k < 31" by simp
  show ?case
  proof (cases "2 ^ k - 1 < maxv")
    case False
    then have "mask_loop (2 ^ k - 1) maxv = Some (2 ^ k - 1)"
      by (subst mask_loop.simps) simp
    with False Suc.prems show ?thesis by (intro exI [of _ k]) simp
  next
    case True
    have "31 - Suc k = d" "Suc k \<le> 31" using Suc.prems by simp_all
    from Suc.IH [OF this \<open>maxv < 2 ^ 31\<close>] obtain K where K:
      "Suc k \<le> K" "K \<le> 31" "mask_loop (2 ^ Suc k - 1) maxv = Some (2 ^ K - 1)"
      "maxv \<le> 2 ^ K - 1" "\<forall>j. Suc k \<le> j \<longrightarrow> j < K \<longrightarrow> 2 ^ j - 1 < maxv"
      by blast
    have "mask_loop (2 ^ k - 1) maxv = mask_loop (2 ^ Suc k - 1) maxv"
      using True by (subst mask_loop.simps) (simp add: mask_step [OF k])
    with K have m: "mask_loop (2 ^ k - 1) maxv = Some (2 ^ K - 1)" by simp
    have "\<forall>j. k \<le> j \<longrightarrow> j < K \<longrightarrow> 2 ^ j - 1 < maxv"
    proof (intro allI impI)
      fix j assume "k \<le> j" "j < K"
      show "2 ^ j - 1 < maxv"
      proof (cases "j = k")
        case True with \<open>2 ^ k - 1 < maxv\<close> show ?thesis by simp
      next
        case False
        with \<open>k \<le> j\<close> have "Suc k \<le> j" by simp
        with K(5) \<open>j < K\<close> show ?thesis by blast
      qed
    qed
    with K m show ?thesis by (intro exI [of _ K]) simp
  qed
qed

lemma mask_loop_total:
  assumes "0 < maxv" "maxv < 2 ^ 31"
  shows "\<exists>K. 1 \<le> K \<and> K \<le> 31 \<and> mask_loop 1 maxv = Some (2 ^ K - 1) \<and>
       maxv \<le> 2 ^ K - 1 \<and> (\<forall>j. j < K \<longrightarrow> 2 ^ j - 1 < maxv)"
proof -
  from mask_loop_total_aux [of 1 30 maxv] assms obtain K where K:
    "1 \<le> K" "K \<le> 31" "mask_loop (2 ^ 1 - 1) maxv = Some (2 ^ K - 1)"
    "maxv \<le> 2 ^ K - 1" "\<forall>j. 1 \<le> j \<longrightarrow> j < K \<longrightarrow> 2 ^ j - 1 < maxv"
    by auto
  have "\<forall>j. j < K \<longrightarrow> 2 ^ j - 1 < maxv"
  proof (intro allI impI)
    fix j assume jK: "j < K"
    show "2 ^ j - 1 < maxv"
    proof (cases "j = 0")
      case True with assms show ?thesis by simp
    next
      case False
      then have "1 \<le> j" by simp
      with K(5) jK show ?thesis by blast
    qed
  qed
  with K show ?thesis by (intro exI [of _ K]) simp
qed

lemma mask_loop_partial:
  assumes "mask_loop maskv maxv = Some y"
  shows "maxv \<le> y \<and> (- (2 ^ 31) \<le> maskv \<and> maskv < 2 ^ 31 \<longrightarrow> - (2 ^ 31) \<le> y \<and> y < 2 ^ 31)"
proof (rule mask_loop.raw_induct
    [where P = "\<lambda>a b c. b \<le> c \<and> (- (2 ^ 31) \<le> a \<and> a < 2 ^ 31 \<longrightarrow> - (2 ^ 31) \<le> c \<and> c < 2 ^ 31)",
     OF _ assms])
  fix f :: "int \<Rightarrow> int \<Rightarrow> int option" and a b c
  assume IH: "\<And>a b c. f a b = Some c \<Longrightarrow>
      b \<le> c \<and> (- (2 ^ 31) \<le> a \<and> a < 2 ^ 31 \<longrightarrow> - (2 ^ 31) \<le> c \<and> c < 2 ^ 31)"
    and step: "(if a < b then f (js_or (js_shl a 1) 1) b else Some a) = Some c"
  show "b \<le> c \<and> (- (2 ^ 31) \<le> a \<and> a < 2 ^ 31 \<longrightarrow> - (2 ^ 31) \<le> c \<and> c < 2 ^ 31)"
  proof (cases "a < b")
    case True
    with step have "f (js_or (js_shl a 1) 1) b = Some c" by simp
    from IH [OF this] js_or_one_range [of "js_shl a 1"] show ?thesis by blast
  next
    case False
    with step show ?thesis by simp
  qed
qed

lemma mask_loop_diverges_aux:
  assumes "mask_loop maskv maxv = Some y"
  shows "\<not> (2 ^ 31 \<le> maxv \<and> (maskv = - 1 \<or> (\<exists>k\<le>31. maskv = 2 ^ k - 1)))"
proof (rule mask_loop.raw_induct
    [where P = "\<lambda>a b c. \<not> (2 ^ 31 \<le> b \<and> (a = - 1 \<or> (\<exists>k\<le>31. a = 2 ^ k - 1)))",
     OF _ assms])
  fix f :: "int \<Rightarrow> int \<Rightarrow> int option" and a b c
  assume IH: "\<And>a b c. f a b = Some c \<Longrightarrow>
      \<not> (2 ^ 31 \<le> b \<and> (a = - 1 \<or> (\<exists>k\<le>31. a = 2 ^ k - 1)))"
    and step: "(if a < b then f (js_or (js_shl a 1) 1) b else Some a) = Some c"
  show "\<not> (2 ^ 31 \<le> b \<and> (a = - 1 \<or> (\<exists>k\<le>31. a = 2 ^ k - 1)))"
  proof
    assume h: "2 ^ 31 \<le> b \<and> (a = - 1 \<or> (\<exists>k\<le>31. a = 2 ^ k - 1))"
    then have big: "2 ^ 31 \<le> b" by simp
    from h consider (stuck) "a = - 1" | (grow) k where "k < 31" "a = 2 ^ k - 1" | (top) "a = 2 ^ 31 - 1"
      by (metis le_neq_implies_less)
    then show False
    proof cases
      case stuck
      with big have "a < b" by simp
      with step have "f (js_or (js_shl a 1) 1) b = Some c" by simp
      then have "f (- 1) b = Some c" using stuck by (simp add: mask_step_stuck)
      from IH [OF this] big show False by simp
    next
      case grow
      have "(2::int) ^ k \<le> 2 ^ 31" using grow(1) by (intro power_increasing) auto
      with big grow have "a < b" by simp
      with step have "f (js_or (js_shl a 1) 1) b = Some c" by simp
      then have "f (2 ^ Suc k - 1) b = Some c" using grow by (simp add: mask_step)
      from IH [OF this] big grow(1) show False
        by (metis Suc_leI)
    next
      case top
      with big have "a < b" by simp
      with step have "f (js_or (js_shl a 1) 1) b = Some c" by simp
      then have "f (- 1) b = Some c" using top by (simp add: mask_step_overflow)
      from IH [OF this] big show False by simp
    qed
  qed
qed

lemma mask_loop_diverges: "2 ^ 31 \<le> maxv \<Longrightarrow> mask_loop 1 maxv = None"
proof (rule ccontr)
  assume big: "2 ^ 31 \<le> maxv" and "mask_loop 1 maxv \<noteq> None"
  then obtain y where "mask_loop 1 maxv = Some y" by auto
  from mask_loop_diverges_aux [OF this] big have "\<not> (\<exists>k\<le>31. (1::int) = 2 ^ k - 1)" by simp
  moreover have "(1::int) = 2 ^ 1 - 1" by simp
  ultimately show False by (metis one_le_numeral)
qed



subsection \<open>The rejection loop and the sampler\<close>

lemma js_and_nonneg_mask:
  assumes "0 \<le> m" "m < 2 ^ 31"
  shows "0 \<le> js_and x m \<and> js_and x m \<le> m"
proof -
  have "ToInt32 m = m" using assms by (intro ToInt32_id) auto
  then show ?thesis using assms(1) by (simp add: js_and_def AND_upper2)
qed

lemma draw_loop_partial:
  assumes "draw_loop rng maskv maxv pos = Some r"
  shows "fst r < maxv \<and> pos < snd r \<and> fst r = js_and (uint (rng (snd r - 1))) maskv"
proof (rule draw_loop.raw_induct
    [where P = "\<lambda>rng maskv maxv pos r. fst r < maxv \<and> pos < snd r \<and> fst r = js_and (uint (rng (snd r - 1))) maskv",
     OF _ assms])
  fix f :: "entropy \<Rightarrow> int \<Rightarrow> int \<Rightarrow> nat \<Rightarrow> (int \<times> nat) option" and rng a b p r
  assume IH: "\<And>rng a b p r. f rng a b p = Some r \<Longrightarrow>
      fst r < b \<and> p < snd r \<and> fst r = js_and (uint (rng (snd r - 1))) a"
    and step: "(let val = js_and (uint (rng p)) a
                in if b \<le> val then f rng a b (Suc p) else Some (val, Suc p)) = Some r"
  show "fst r < b \<and> p < snd r \<and> fst r = js_and (uint (rng (snd r - 1))) a"
  proof (cases "b \<le> js_and (uint (rng p)) a")
    case True
    with step have "f rng a b (Suc p) = Some r" by (simp add: Let_def)
    from IH [OF this] show ?thesis by simp
  next
    case False
    with step have "r = (js_and (uint (rng p)) a, Suc p)" by (simp add: Let_def)
    with False show ?thesis by simp
  qed
qed

lemma draw_loop_total:
  "n - pos = d \<Longrightarrow> pos \<le> n \<Longrightarrow> js_and (uint (rng n)) maskv < maxv \<Longrightarrow>
   \<exists>v pos'. draw_loop rng maskv maxv pos = Some (v, pos') \<and> pos' \<le> Suc n"
proof (induction d arbitrary: pos)
  case 0
  then have "pos = n" by simp
  with 0(3) have "draw_loop rng maskv maxv pos = Some (js_and (uint (rng n)) maskv, Suc n)"
    by (subst draw_loop.simps) (simp add: Let_def)
  then show ?case by simp
next
  case (Suc d)
  show ?case
  proof (cases "maxv \<le> js_and (uint (rng pos)) maskv")
    case False
    then have "draw_loop rng maskv maxv pos = Some (js_and (uint (rng pos)) maskv, Suc pos)"
      by (subst draw_loop.simps) (simp add: Let_def)
    with Suc.prems show ?thesis by simp
  next
    case True
    then have e: "draw_loop rng maskv maxv pos = draw_loop rng maskv maxv (Suc pos)"
      by (subst draw_loop.simps) (simp add: Let_def)
    have "n - Suc pos = d" "Suc pos \<le> n" using Suc.prems by simp_all
    from Suc.IH [OF this Suc.prems(3)] e show ?thesis by simp
  qed
qed

lemma secureRandInt_range:
  assumes "0 < maxv" "secureRandInt rng maxv pos = Some r"
  shows "\<exists>v pos'. r = Inr (v, pos') \<and> 0 \<le> v \<and> v < maxv \<and> pos < pos'"
proof -
  from assms obtain m where m: "mask_loop 1 maxv = Some m"
    by (auto simp: secureRandInt_def split: option.splits)
  with assms obtain v pos' where d: "draw_loop rng m maxv pos = Some (v, pos')" and r: "r = Inr (v, pos')"
    by (auto simp: secureRandInt_def split: option.splits)
  from mask_loop_partial [OF m] have mr: "maxv \<le> m" "m < 2 ^ 31" by simp_all
  from draw_loop_partial [OF d] have v: "v < maxv" "pos < pos'" "v = js_and (uint (rng (pos' - 1))) m"
    by simp_all
  from mr assms(1) have "0 \<le> m" by simp
  from js_and_nonneg_mask [OF this mr(2)] v(3) have "0 \<le> v" by simp
  with v r show ?thesis by simp
qed

lemma secureRandInt_total:
  assumes "0 < maxv" "maxv < 2 ^ 31" "pos \<le> n" "accepts maxv (rng n)"
  shows "\<exists>v pos'. secureRandInt rng maxv pos = Some (Inr (v, pos'))"
proof -
  from mask_loop_total [OF assms(1,2)] obtain m where m: "mask_loop 1 maxv = Some m" by blast
  with assms(4) have "js_and (uint (rng n)) m < maxv" by (simp add: accepts_def)
  from draw_loop_total [where rng = rng and n = n, OF refl assms(3) this] obtain v pos'
    where "draw_loop rng m maxv pos = Some (v, pos')" by blast
  with m assms(1) show ?thesis by (simp add: secureRandInt_def)
qed

lemma secureRandInt_fair:
  assumes "fair rng" "0 < maxv" "maxv < 2 ^ 31"
  shows "\<exists>v pos'. secureRandInt rng maxv pos = Some (Inr (v, pos')) \<and> 0 \<le> v \<and> v < maxv"
proof -
  from assms obtain n where "pos \<le> n" "accepts maxv (rng n)" unfolding fair_def by blast
  from secureRandInt_total [where rng = rng and n = n, OF assms(2,3) this] obtain v pos'
    where s: "secureRandInt rng maxv pos = Some (Inr (v, pos'))" by blast
  from secureRandInt_range [OF assms(2) s] s show ?thesis by simp
qed

lemma accepts_zero: "0 < maxv \<Longrightarrow> maxv < 2 ^ 31 \<Longrightarrow> accepts maxv 0"
proof -
  assume a: "0 < maxv" "maxv < 2 ^ 31"
  from mask_loop_total [OF a] obtain m where m: "mask_loop 1 maxv = Some m" by blast
  have "js_and 0 m = 0" by (simp add: js_and_def ToInt32_def)
  with m a show ?thesis by (simp add: accepts_def)
qed



lemma js_and_one: "js_and (uint w) 1 = (if even (uint w) then 0 else 1)"
proof -
  have "even (ToInt32 (uint w)) = even (uint w)"
    unfolding ToInt32_def Let_def by (auto simp: even_mod_2_iff dvd_mod_iff)
  then show ?thesis by (simp add: js_and_def ToInt32_def and_one_eq mod_2_eq_odd)
qed

lemma mask_loop_one: "mask_loop 1 1 = Some 1"
  by (subst mask_loop.simps) simp

lemma secureRandInt_one_even:
  "even (uint (rng pos)) \<Longrightarrow> secureRandInt rng 1 pos = Some (Inr (0, Suc pos))"
  by (simp add: secureRandInt_def mask_loop_one js_and_one draw_loop.simps [of rng 1 1 pos])

lemma secureRandInt_one_odd:
  "odd (uint (rng pos)) \<Longrightarrow> secureRandInt rng 1 pos = secureRandInt rng 1 (Suc pos)"
  by (simp add: secureRandInt_def mask_loop_one js_and_one draw_loop.simps [of rng 1 1 pos])

lemma draw_loop_one_even:
  assumes "draw_loop rng maskv maxv pos = Some r"
  shows "maskv = 1 \<and> maxv = 1 \<longrightarrow> (\<exists>n\<ge>pos. even (uint (rng n)))"
proof (rule draw_loop.raw_induct
    [where P = "\<lambda>rng maskv maxv pos r. maskv = 1 \<and> maxv = 1 \<longrightarrow> (\<exists>n\<ge>pos. even (uint (rng n)))",
     OF _ assms])
  fix f :: "entropy \<Rightarrow> int \<Rightarrow> int \<Rightarrow> nat \<Rightarrow> (int \<times> nat) option" and rng a b p r
  assume IH: "\<And>rng a b p r. f rng a b p = Some r \<Longrightarrow>
      a = 1 \<and> b = 1 \<longrightarrow> (\<exists>n\<ge>p. even (uint (rng n)))"
    and step: "(let val = js_and (uint (rng p)) a
                in if b \<le> val then f rng a b (Suc p) else Some (val, Suc p)) = Some r"
  show "a = 1 \<and> b = 1 \<longrightarrow> (\<exists>n\<ge>p. even (uint (rng n)))"
  proof
    assume ab: "a = 1 \<and> b = 1"
    show "\<exists>n\<ge>p. even (uint (rng n))"
    proof (cases "even (uint (rng p))")
      case True
      then show ?thesis by blast
    next
      case False
      with step ab have "f rng a b (Suc p) = Some r" by (simp add: Let_def js_and_one)
      from IH [OF this] ab obtain n where "Suc p \<le> n" "even (uint (rng n))" by blast
      then show ?thesis by (intro exI [of _ n]) simp
    qed
  qed
qed

lemma secureRandInt_one_diverges:
  assumes "\<forall>n\<ge>pos. odd (uint (rng n))"
  shows "secureRandInt rng 1 pos = None"
proof (cases "draw_loop rng 1 1 pos")
  case None
  then show ?thesis by (simp add: secureRandInt_def mask_loop_one)
next
  case (Some r)
  from draw_loop_one_even [OF this] assms show ?thesis by blast
qed

subsection \<open>The shuffle\<close>

lemma secureRandInt_bound:
  assumes "0 < maxv" "secureRandInt rng maxv pos = Some r"
  shows "maxv < 2 ^ 31"
proof -
  from assms obtain m where m: "mask_loop 1 maxv = Some m"
    by (auto simp: secureRandInt_def split: option.splits)
  from mask_loop_partial [OF m] show ?thesis by simp
qed

lemma js_swap_in_range:
  assumes "i < length arr" "0 \<le> j" "j < int (length arr)" "int i < 2 ^ 31" "j < 2 ^ 31"
  shows "js_swap arr (int i) j = arr[i := arr ! nat j, nat j := arr ! i]"
  using assms by (simp add: js_swap_def js_set_def js_get_def)

lemma mset_js_swap:
  assumes "i < length arr" "0 \<le> j" "j < int (length arr)" "int i < 2 ^ 31" "j < 2 ^ 31"
  shows "mset (js_swap arr (int i) j) = mset arr"
proof -
  have "nat j < length arr" using assms by simp
  with assms(1) have "mset (arr[nat j := arr ! i, i := arr ! nat j]) = mset arr"
    by (rule mset_swap)
  moreover have "arr[i := arr ! nat j, nat j := arr ! i] = arr[nat j := arr ! i, i := arr ! nat j]"
    by (cases "i = nat j") (simp_all add: list_update_swap)
  ultimately show ?thesis using js_swap_in_range [OF assms] by simp
qed

lemma shuffle_loop_partial:
  "i < length arr \<or> i = 0 \<Longrightarrow> shuffle_loop rng i arr pos = Some r \<Longrightarrow>
   \<exists>arr' pos'. r = Inr (arr', pos') \<and> mset arr' = mset arr \<and> pos \<le> pos'"
proof (induction i arbitrary: arr pos)
  case 0
  then show ?case by auto
next
  case (Suc i)
  then have len: "Suc i < length arr" by simp
  from Suc.prems(2) obtain q where q: "secureRandInt rng (int (Suc i) + 1) pos = Some q"
    by (auto split: option.splits)
  have pos: "0 < int (Suc i) + 1" by simp
  from secureRandInt_range [OF pos q] obtain j pos1 where
    j: "q = Inr (j, pos1)" "0 \<le> j" "j < int (Suc i) + 1" "pos < pos1" by blast
  from secureRandInt_bound [OF pos q] have b: "int (Suc i) + 1 < 2 ^ 31" .
  then have i31: "int (Suc i) < 2 ^ 31" by simp
  from b j(3) have j31: "j < 2 ^ 31" by simp
  have jr: "j < int (length arr)" using j(3) len by simp
  from Suc.prems(2) q j(1)
  have rest: "shuffle_loop rng i (js_swap arr (int (Suc i)) j) pos1 = Some r" by simp
  from mset_js_swap [OF len j(2) jr i31 j31]
  have ms: "mset (js_swap arr (int (Suc i)) j) = mset arr" .
  then have "length (js_swap arr (int (Suc i)) j) = length arr" by (rule mset_eq_length)
  with len have "i < length (js_swap arr (int (Suc i)) j) \<or> i = 0" by simp
  from Suc.IH [OF this rest] ms j(4) show ?case by auto
qed

lemma shuffle_loop_total:
  "fair rng \<Longrightarrow> i < length arr \<or> i = 0 \<Longrightarrow> int i + 1 < 2 ^ 31 \<Longrightarrow>
   \<exists>arr' pos'. shuffle_loop rng i arr pos = Some (Inr (arr', pos'))"
proof (induction i arbitrary: arr pos)
  case 0
  then show ?case by simp
next
  case (Suc i)
  then have len: "Suc i < length arr" by simp
  have p: "0 < int (Suc i) + 1" by simp
  from secureRandInt_fair [OF Suc.prems(1) p Suc.prems(3), of pos] obtain j pos1 where
    j: "secureRandInt rng (int (Suc i) + 1) pos = Some (Inr (j, pos1))" "0 \<le> j" "j < int (Suc i) + 1"
    by blast
  have i31: "int (Suc i) < 2 ^ 31" using Suc.prems(3) by simp
  with j(3) have j31: "j < 2 ^ 31" by simp
  have jr: "j < int (length arr)" using j(3) len by simp
  from mset_js_swap [OF len j(2) jr i31 j31]
  have "length (js_swap arr (int (Suc i)) j) = length arr" by (rule mset_eq_length)
  with len have a: "i < length (js_swap arr (int (Suc i)) j) \<or> i = 0" by simp
  have b: "int i + 1 < 2 ^ 31" using Suc.prems(3) by simp
  from Suc.IH [OF Suc.prems(1) a b, of pos1] j(1) show ?case by simp
qed

lemma secureShuffle_partial:
  assumes "secureShuffle rng arr pos = Some r"
  shows "\<exists>arr' pos'. r = Inr (arr', pos') \<and> mset arr' = mset arr \<and> pos \<le> pos'"
proof -
  have "length arr - 1 < length arr \<or> length arr - 1 = 0" by (cases arr) simp_all
  from shuffle_loop_partial [OF this] assms show ?thesis by (simp add: secureShuffle_def)
qed

lemma secureShuffle_total:
  assumes "fair rng" "int (length arr) < 2 ^ 31"
  shows "\<exists>arr' pos'. secureShuffle rng arr pos = Some (Inr (arr', pos'))"
proof -
  have a: "length arr - 1 < length arr \<or> length arr - 1 = 0" by (cases arr) simp_all
  have b: "int (length arr - 1) + 1 < 2 ^ 31" using assms(2) by (cases arr) simp_all
  from shuffle_loop_total [OF assms(1) a b] show ?thesis by (simp add: secureShuffle_def)
qed

lemma secureShuffle_short:
  "length arr \<le> 1 \<Longrightarrow> secureShuffle rng arr pos = Some (Inr (arr, pos))"
  by (cases arr) (simp_all add: secureShuffle_def)

subsection \<open>Seeding, filling and joining\<close>

lemma js_join_all_Some:
  "\<forall>c\<in>set arr. c \<noteq> None \<Longrightarrow> map Some (js_join arr) = arr"
  by (induction arr) (auto simp: js_join_def)

lemma set_js_join: "set (js_join arr) = {x. Some x \<in> set arr}"
  by (induction arr) (auto simp: js_join_def split: option.splits)

lemma length_js_join:
  "\<forall>c\<in>set arr. c \<noteq> None \<Longrightarrow> length (js_join arr) = length arr"
  using js_join_all_Some [of arr] by (metis length_map)

lemma js_index_in_range:
  "0 \<le> k \<Longrightarrow> k < int (length s) \<Longrightarrow> \<exists>x. js_index s k = Some x \<and> x \<in> set s"
  by (simp add: js_index_def)

lemma seed_loop_partial:
  "seed_loop rng ps cs pos = Some r \<Longrightarrow>
   \<exists>new pos'. r = Inr (cs @ new, pos') \<and>
     list_all2 (\<lambda>p c. \<exists>x. c = Some x \<and> x \<in> set (chars p)) (filter (\<lambda>p. 0 < length (chars p)) ps) new"
proof (induction ps arbitrary: cs pos)
  case Nil
  then show ?case by auto
next
  case (Cons p ps)
  show ?case
  proof (cases "0 < length (chars p)")
    case False
    with Cons.prems have "seed_loop rng ps cs pos = Some r" by simp
    from Cons.IH [OF this] False show ?thesis by simp
  next
    case True
    with Cons.prems obtain q where q: "secureRandInt rng (int (length (chars p))) pos = Some q"
      by (auto split: option.splits)
    from True have p0: "0 < int (length (chars p))" by simp
    from secureRandInt_range [OF p0 q] obtain k pos1 where
      k: "q = Inr (k, pos1)" "0 \<le> k" "k < int (length (chars p))" by blast
    from js_index_in_range [OF k(2,3)] obtain x where x: "js_index (chars p) k = Some x" "x \<in> set (chars p)"
      by blast
    from Cons.prems True q k(1)
    have "seed_loop rng ps (cs @ [js_index (chars p) k]) pos1 = Some r" by simp
    from Cons.IH [OF this] obtain new pos' where
      n: "r = Inr ((cs @ [js_index (chars p) k]) @ new, pos')"
         "list_all2 (\<lambda>p c. \<exists>x. c = Some x \<and> x \<in> set (chars p)) (filter (\<lambda>p. 0 < length (chars p)) ps) new"
      by blast
    have "r = Inr (cs @ (Some x # new), pos')" using n(1) x(1) by simp
    moreover have "list_all2 (\<lambda>p c. \<exists>x. c = Some x \<and> x \<in> set (chars p))
        (filter (\<lambda>p. 0 < length (chars p)) (p # ps)) (Some x # new)"
      using True n(2) x(2) by simp
    ultimately show ?thesis by blast
  qed
qed

lemma seed_loop_total:
  "fair rng \<Longrightarrow> \<forall>p\<in>set ps. int (length (chars p)) < 2 ^ 31 \<Longrightarrow>
   \<exists>out pos'. seed_loop rng ps cs pos = Some (Inr (out, pos'))"
proof (induction ps arbitrary: cs pos)
  case Nil
  then show ?case by simp
next
  case (Cons p ps)
  show ?case
  proof (cases "0 < length (chars p)")
    case False
    with Cons.IH [of cs pos] Cons.prems show ?thesis by simp
  next
    case True
    then have p0: "0 < int (length (chars p))" by simp
    have p1: "int (length (chars p)) < 2 ^ 31" using Cons.prems(2) by simp
    from secureRandInt_fair [OF Cons.prems(1) p0 p1, of pos] obtain k pos1 where
      k: "secureRandInt rng (int (length (chars p))) pos = Some (Inr (k, pos1))" by blast
    from Cons.IH [of "cs @ [js_index (chars p) k]" pos1] Cons.prems
    obtain out pos' where "seed_loop rng ps (cs @ [js_index (chars p) k]) pos1 = Some (Inr (out, pos'))"
      by auto
    with True k show ?thesis by simp
  qed
qed

lemma fill_loop_partial:
  "0 < length alph \<Longrightarrow> fill_loop rng alph n cs pos = Some r \<Longrightarrow>
   \<exists>new pos'. r = Inr (cs @ new, pos') \<and> length new = n \<and>
     (\<forall>c\<in>set new. \<exists>x. c = Some x \<and> x \<in> set alph)"
proof (induction n arbitrary: cs pos)
  case 0
  then show ?case by auto
next
  case (Suc n)
  from Suc.prems(2) obtain q where q: "secureRandInt rng (int (length alph)) pos = Some q"
    by (auto split: option.splits)
  from Suc.prems(1) have p0: "0 < int (length alph)" by simp
  from secureRandInt_range [OF p0 q] obtain k pos1 where
    k: "q = Inr (k, pos1)" "0 \<le> k" "k < int (length alph)" by blast
  from js_index_in_range [OF k(2,3)] obtain x where x: "js_index alph k = Some x" "x \<in> set alph"
    by blast
  from Suc.prems(2) q k(1)
  have "fill_loop rng alph n (cs @ [js_index alph k]) pos1 = Some r" by simp
  from Suc.IH [OF Suc.prems(1) this] obtain new pos' where
    n: "r = Inr ((cs @ [js_index alph k]) @ new, pos')" "length new = n"
       "\<forall>c\<in>set new. \<exists>x. c = Some x \<and> x \<in> set alph"
    by blast
  have "r = Inr (cs @ (Some x # new), pos')" using n(1) x(1) by simp
  moreover have "length (Some x # new) = Suc n" using n(2) by simp
  moreover have "\<forall>c\<in>set (Some x # new). \<exists>x. c = Some x \<and> x \<in> set alph"
    using n(3) x(2) by simp
  ultimately show ?case by blast
qed

lemma fill_loop_total:
  "fair rng \<Longrightarrow> 0 < length alph \<Longrightarrow> int (length alph) < 2 ^ 31 \<Longrightarrow>
   \<exists>out pos'. fill_loop rng alph n cs pos = Some (Inr (out, pos'))"
proof (induction n arbitrary: cs pos)
  case 0
  then show ?case by simp
next
  case (Suc n)
  from Suc.prems(2) have p0: "0 < int (length alph)" by simp
  from secureRandInt_fair [OF Suc.prems(1) p0 Suc.prems(3), of pos] obtain k pos1 where
    k: "secureRandInt rng (int (length alph)) pos = Some (Inr (k, pos1))" by blast
  from Suc.IH [OF Suc.prems, of "cs @ [js_index alph k]" pos1]
  obtain out pos' where "fill_loop rng alph n (cs @ [js_index alph k]) pos1 = Some (Inr (out, pos'))"
    by blast
  with k show ?case by simp
qed

subsection \<open>Pools and the generation algorithm\<close>

lemma filteredPools_nonempty_chars:
  "p \<in> set (filteredPools cfg) \<Longrightarrow> 0 < length (chars p)"
  by (auto simp: filteredPools_def)

lemma length_filteredPools: "length (filteredPools cfg) = length (activePools cfg)"
  by (simp add: filteredPools_def activePools_def POOLS_upper_def POOLS_lower_def
      POOLS_digits_def POOLS_symbols_def AMBIGUOUS_def)

lemma filteredPools_chars_length:
  "p \<in> set (filteredPools cfg) \<Longrightarrow> length (chars p) \<le> 28"
proof -
  assume "p \<in> set (filteredPools cfg)"
  then obtain q where q: "q \<in> set (activePools cfg)"
    and p: "chars p = (if noAmbig cfg then filter (\<lambda>c. c \<notin> AMBIGUOUS) (chars q) else chars q)"
    by (auto simp: filteredPools_def)
  from q have "length (chars q) \<le> 28"
    by (auto simp: activePools_def POOLS_upper_def POOLS_lower_def POOLS_digits_def
        POOLS_symbols_def split: if_splits)
  moreover have "length (filter (\<lambda>c. c \<notin> AMBIGUOUS) (chars q)) \<le> length (chars q)"
    by (rule length_filter_le)
  ultimately have "length (filter (\<lambda>c. c \<notin> AMBIGUOUS) (chars q)) \<le> 28" "length (chars q) \<le> 28"
    by linarith+
  then show ?thesis using p by (simp split: if_splits)
qed

lemma alphabet_superset:
  "p \<in> set (filteredPools cfg) \<Longrightarrow> set (chars p) \<subseteq> set (alphabet cfg)"
  by (auto simp: alphabet_def)

lemma alphabet_nonempty: "activePools cfg \<noteq> [] \<Longrightarrow> 0 < length (alphabet cfg)"
proof -
  assume "activePools cfg \<noteq> []"
  then have "filteredPools cfg \<noteq> []" using length_filteredPools [of cfg] by auto
  then obtain p where p: "p \<in> set (filteredPools cfg)" by (cases "filteredPools cfg") auto
  from filteredPools_nonempty_chars [OF p] have "set (chars p) \<noteq> {}" by auto
  with alphabet_superset [OF p] show ?thesis by auto
qed

lemma length_alphabet: "length (alphabet cfg) \<le> 112"
proof -
  have "length (activePools cfg) \<le> 4" by (simp add: activePools_def)
  then have n: "length (filteredPools cfg) \<le> 4" by (simp add: length_filteredPools)
  have "length (alphabet cfg) = sum_list (map (\<lambda>p. length (chars p)) (filteredPools cfg))"
    by (simp add: alphabet_def length_concat comp_def)
  also have "\<dots> \<le> sum_list (map (\<lambda>p. 28) (filteredPools cfg))"
    by (rule sum_list_mono) (rule filteredPools_chars_length)
  also have "\<dots> = 28 * length (filteredPools cfg)" by (simp add: sum_list_triv)
  finally show ?thesis using n by simp
qed

lemma list_all2_witness:
  "list_all2 P xs ys \<Longrightarrow> x \<in> set xs \<Longrightarrow> \<exists>y\<in>set ys. P x y"
  by (induction rule: list_all2_induct) auto

lemma list_all2_range:
  "list_all2 P xs ys \<Longrightarrow> y \<in> set ys \<Longrightarrow> \<exists>x\<in>set xs. P x y"
  by (induction rule: list_all2_induct) auto

lemma filter_filteredPools:
  "filter (\<lambda>p. 0 < length (chars p)) (filteredPools cfg) = filteredPools cfg"
  by (simp add: filteredPools_def)

lemma generatePassword_partial:
  assumes g: "generatePassword rng cfg pos = Some r" and act: "activePools cfg \<noteq> []"
  shows "\<exists>seeded filled shuffled pos'.
      r = Inr (js_join shuffled, pos') \<and> mset shuffled = mset (seeded @ filled) \<and>
      length filled = nat (length_cfg cfg - int (length seeded)) \<and>
      (\<forall>c\<in>set filled. \<exists>x. c = Some x \<and> x \<in> set (alphabet cfg)) \<and>
      (if guarantee cfg
       then list_all2 (\<lambda>p c. \<exists>x. c = Some x \<and> x \<in> set (chars p)) (filteredPools cfg) seeded
       else seeded = [])"
proof -
  from act have fp: "filteredPools cfg \<noteq> []" using length_filteredPools [of cfg] by auto
  define s0 where "s0 = (if guarantee cfg then seed_loop rng (filteredPools cfg) [] pos
               else Some (Inr ([], pos)))"
  from g act fp obtain q0 where q0: "s0 = Some q0"
    by (auto simp: generatePassword_def s0_def [symmetric] split: option.splits)
  have "\<exists>seeded pos1. q0 = Inr (seeded, pos1) \<and>
      (if guarantee cfg
       then list_all2 (\<lambda>p c. \<exists>x. c = Some x \<and> x \<in> set (chars p)) (filteredPools cfg) seeded
       else seeded = [])"
  proof (cases "guarantee cfg")
    case True
    with q0 have "seed_loop rng (filteredPools cfg) [] pos = Some q0" by (simp add: s0_def)
    from seed_loop_partial [OF this, unfolded filter_filteredPools] True show ?thesis by simp
  next
    case False
    with q0 show ?thesis by (auto simp: s0_def)
  qed
  then obtain seeded pos1 where s: "q0 = Inr (seeded, pos1)"
    "if guarantee cfg
       then list_all2 (\<lambda>p c. \<exists>x. c = Some x \<and> x \<in> set (chars p)) (filteredPools cfg) seeded
       else seeded = []" by blast
  from g act fp q0 s(1) obtain q1 where
    q1: "fill_loop rng (alphabet cfg) (nat (length_cfg cfg - int (length seeded))) seeded pos1 = Some q1"
    by (auto simp: generatePassword_def s0_def [symmetric] Let_def split: option.splits)
  from fill_loop_partial [OF alphabet_nonempty [OF act] q1] obtain filled pos2 where
    f: "q1 = Inr (seeded @ filled, pos2)" "length filled = nat (length_cfg cfg - int (length seeded))"
       "\<forall>c\<in>set filled. \<exists>x. c = Some x \<and> x \<in> set (alphabet cfg)" by blast
  from g act fp q0 s(1) q1 f(1) obtain q2 where
    q2: "secureShuffle rng (seeded @ filled) pos2 = Some q2"
    by (auto simp: generatePassword_def s0_def [symmetric] Let_def split: option.splits)
  from secureShuffle_partial [OF q2] obtain shuffled pos3 where
    sh: "q2 = Inr (shuffled, pos3)" "mset shuffled = mset (seeded @ filled)" by blast
  from g act fp q0 s(1) q1 f(1) q2 sh(1) have "r = Inr (js_join shuffled, pos3)"
    by (simp add: generatePassword_def s0_def [symmetric] Let_def)
  with sh(2) f(2,3) s(2) show ?thesis by blast
qed

lemma generatePassword_total:
  assumes fair: "fair rng" and act: "activePools cfg \<noteq> []" and len: "length_cfg cfg < 2 ^ 31"
  shows "\<exists>pw pos'. generatePassword rng cfg pos = Some (Inr (pw, pos'))"
proof -
  from act have fp: "filteredPools cfg \<noteq> []" using length_filteredPools [of cfg] by auto
  define s0 where "s0 = (if guarantee cfg then seed_loop rng (filteredPools cfg) [] pos
               else Some (Inr ([], pos)))"
  have small: "\<forall>p\<in>set (filteredPools cfg). int (length (chars p)) < 2 ^ 31"
    using filteredPools_chars_length by fastforce
  have "\<exists>seeded pos1. s0 = Some (Inr (seeded, pos1)) \<and> length seeded \<le> 4"
  proof (cases "guarantee cfg")
    case True
    from seed_loop_total [OF fair small, of "[]" pos] obtain out pos1 where
      o: "seed_loop rng (filteredPools cfg) [] pos = Some (Inr (out, pos1))" by blast
    from seed_loop_partial [OF o, unfolded filter_filteredPools]
    have "length out = length (filteredPools cfg)"
      by (auto dest: list_all2_lengthD)
    moreover have "length (activePools cfg) \<le> 4" by (simp add: activePools_def)
    ultimately have "length out \<le> 4" by (simp add: length_filteredPools)
    with o True show ?thesis by (simp add: s0_def)
  next
    case False
    then show ?thesis by (simp add: s0_def)
  qed
  then obtain seeded pos1 where s: "s0 = Some (Inr (seeded, pos1))" "length seeded \<le> 4" by blast
  have a31: "int (length (alphabet cfg)) < 2 ^ 31" using length_alphabet [of cfg] by simp
  from fill_loop_total [OF fair alphabet_nonempty [OF act] a31] obtain out pos2 where
    o: "fill_loop rng (alphabet cfg) (nat (length_cfg cfg - int (length seeded))) seeded pos1
        = Some (Inr (out, pos2))" by blast
  from fill_loop_partial [OF alphabet_nonempty [OF act] o] obtain filled where
    f: "out = seeded @ filled" "length filled = nat (length_cfg cfg - int (length seeded))" by auto
  have "int (length out) < 2 ^ 31" using f s(2) len by simp
  from secureShuffle_total [OF fair this, of pos2] obtain shuffled pos3 where
    sh: "secureShuffle rng out pos2 = Some (Inr (shuffled, pos3))" by blast
  from act fp s(1) o sh show ?thesis
    by (simp add: generatePassword_def s0_def [symmetric] Let_def)
qed

lemma generatePassword_shape:
  assumes g: "generatePassword rng cfg pos = Some r" and act: "activePools cfg \<noteq> []"
  shows "\<exists>pw pos'. r = Inr (pw, pos') \<and>
      int (length pw) = max (length_cfg cfg) (if guarantee cfg then int (length (filteredPools cfg)) else 0) \<and>
      set pw \<subseteq> set (alphabet cfg) \<and>
      (guarantee cfg \<longrightarrow> (\<forall>p\<in>set (filteredPools cfg). \<exists>c\<in>set pw. c \<in> set (chars p)))"
proof -
  from generatePassword_partial [OF g act] obtain seeded filled shuffled pos' where
    r: "r = Inr (js_join shuffled, pos')" and ms: "mset shuffled = mset (seeded @ filled)"
    and lf: "length filled = nat (length_cfg cfg - int (length seeded))"
    and fa: "\<forall>c\<in>set filled. \<exists>x. c = Some x \<and> x \<in> set (alphabet cfg)"
    and sd: "if guarantee cfg
       then list_all2 (\<lambda>p c. \<exists>x. c = Some x \<and> x \<in> set (chars p)) (filteredPools cfg) seeded
       else seeded = []" by blast
  from ms have st: "set shuffled = set seeded \<union> set filled" by (metis mset_eq_setD set_append)
  from ms have ln: "length shuffled = length seeded + length filled" by (metis mset_eq_length length_append)
  have sa: "\<forall>c\<in>set seeded. \<exists>x. c = Some x \<and> x \<in> set (alphabet cfg)"
  proof
    fix c assume c: "c \<in> set seeded"
    with sd have l: "list_all2 (\<lambda>p c. \<exists>x. c = Some x \<and> x \<in> set (chars p)) (filteredPools cfg) seeded"
      by (auto split: if_splits)
    from list_all2_range [OF l c] obtain p x where "p \<in> set (filteredPools cfg)" "c = Some x" "x \<in> set (chars p)"
      by blast
    with alphabet_superset [of p cfg] show "\<exists>x. c = Some x \<and> x \<in> set (alphabet cfg)" by auto
  qed
  from sa fa st have all: "\<forall>c\<in>set shuffled. \<exists>x. c = Some x \<and> x \<in> set (alphabet cfg)" by auto
  then have "\<forall>c\<in>set shuffled. c \<noteq> None" by auto
  from length_js_join [OF this] ln have l1: "length (js_join shuffled) = length seeded + length filled"
    by simp
  have ls: "int (length seeded) = (if guarantee cfg then int (length (filteredPools cfg)) else 0)"
    using sd by (auto split: if_splits dest: list_all2_lengthD)
  have l2: "int (length (js_join shuffled)) =
      max (length_cfg cfg) (if guarantee cfg then int (length (filteredPools cfg)) else 0)"
    using l1 lf ls by (auto simp: max_def)
  have sub: "set (js_join shuffled) \<subseteq> set (alphabet cfg)"
    using all by (auto simp: set_js_join)
  have cov: "guarantee cfg \<longrightarrow> (\<forall>p\<in>set (filteredPools cfg). \<exists>c\<in>set (js_join shuffled). c \<in> set (chars p))"
  proof (intro impI ballI)
    fix p assume gu: "guarantee cfg" and p: "p \<in> set (filteredPools cfg)"
    with sd have l: "list_all2 (\<lambda>p c. \<exists>x. c = Some x \<and> x \<in> set (chars p)) (filteredPools cfg) seeded"
      by simp
    from list_all2_witness [OF l p] obtain c x where "c \<in> set seeded" "c = Some x" "x \<in> set (chars p)"
      by blast
    with st show "\<exists>c\<in>set (js_join shuffled). c \<in> set (chars p)" by (auto simp: set_js_join)
  qed
  from r l2 sub cov show ?thesis by blast
qed

lemma fair_zeros: "fair zeros"
  unfolding fair_def zeros_def using accepts_zero by blast

lemma filteredPools_noAmbig:
  "noAmbig cfg \<Longrightarrow> p \<in> set (filteredPools cfg) \<Longrightarrow> set (chars p) \<inter> AMBIGUOUS = {}"
  by (auto simp: filteredPools_def)

lemma alphabet_noAmbig: "noAmbig cfg \<Longrightarrow> set (alphabet cfg) \<inter> AMBIGUOUS = {}"
  using filteredPools_noAmbig [of cfg] by (auto simp: alphabet_def)

subsection \<open>Logarithm bounds for the entropy estimate\<close>

lemma log2_less:
  assumes "0 < b" "b ^ q < (2::nat) ^ p"
  shows "real q * log 2 (real b) < real p"
proof -
  have "real b ^ q < 2 ^ p" using assms(2) by (metis of_nat_less_iff of_nat_power of_nat_numeral)
  moreover have "0 < real b ^ q" using assms(1) by simp
  ultimately have "log 2 (real b ^ q) < log 2 (2 ^ p)" by (simp add: log_less_cancel_iff del: log_pow_cancel)
  moreover have "log 2 (real b ^ q) = real q * log 2 (real b)"
    using assms(1) by (simp add: log_nat_power)
  moreover have "log 2 ((2::real) ^ p) = real p" by simp
  ultimately show ?thesis by simp
qed

lemma log2_greater:
  assumes "0 < b" "(2::nat) ^ p < b ^ q"
  shows "real p < real q * log 2 (real b)"
proof -
  have "(2::real) ^ p < real b ^ q" using assms(2) by (metis of_nat_less_iff of_nat_power of_nat_numeral)
  moreover have "(0::real) < 2 ^ p" by simp
  moreover have "0 < real b ^ q" using assms(1) by simp
  ultimately have "log 2 (2 ^ p) < log 2 (real b ^ q)" by (simp add: log_less_cancel_iff del: log_pow_cancel)
  moreover have "log 2 (real b ^ q) = real q * log 2 (real b)"
    using assms(1) by (simp add: log_nat_power)
  moreover have "log 2 ((2::real) ^ p) = real p" by simp
  ultimately show ?thesis by simp
qed

lemma log2_91_bounds: "13 / 2 < log 2 91 \<and> log 2 91 < 163 / 25"
proof -
  have "(2::nat) ^ 13 < 91 ^ 2" by simp
  from log2_greater [OF _ this] have lo: "13 / 2 < log 2 91" by simp
  have "(91::nat) ^ 25 < 2 ^ 163" by simp
  from log2_less [OF _ this] have hi: "log 2 91 < 163 / 25" by simp
  from lo hi show ?thesis by simp
qed

lemma log2_26_bounds: "47 / 10 < log 2 26 \<and> log 2 26 < 127 / 27"
proof -
  have "(2::nat) ^ 47 < 26 ^ 10" by simp
  from log2_greater [OF _ this] have lo: "47 / 10 < log 2 26" by simp
  have "(26::nat) ^ 27 < 2 ^ 127" by simp
  from log2_less [OF _ this] have hi: "log 2 26 < 127 / 27" by simp
  from lo hi show ?thesis by simp
qed

lemma js_round_eq: "real_of_int k - 1 / 2 \<le> x \<Longrightarrow> x < real_of_int k + 1 / 2 \<Longrightarrow> js_round x = k"
  unfolding js_round_def by (rule floor_unique) simp_all

lemma js_round_near: "\<bar>real_of_int (js_round x) - x\<bar> \<le> 1 / 2"
  unfolding js_round_def by linarith

lemma round_20_91: "\<bar>err\<bar> \<le> 1 / 20 \<Longrightarrow> js_round (20 * log 2 91 + err) = 130"
  using log2_91_bounds by (intro js_round_eq) (simp_all, linarith+)

lemma round_12_91: "\<bar>err\<bar> \<le> 1 / 20 \<Longrightarrow> js_round (12 * log 2 91 + err) = 78"
  using log2_91_bounds by (intro js_round_eq) (simp_all, linarith+)

lemma round_12_26: "\<bar>err\<bar> \<le> 1 / 20 \<Longrightarrow> js_round (12 * log 2 26 + err) = 56"
  using log2_26_bounds by (intro js_round_eq) (simp_all, linarith+)

subsection \<open>Double rounding in the entropy estimate\<close>

lemma rne_error: "\<bar>real_of_int (rne q) - q\<bar> \<le> 1 / 2"
proof -
  have "real_of_int \<lfloor>q\<rfloor> \<le> q" "q < real_of_int \<lfloor>q\<rfloor> + 1" by linarith+
  then show ?thesis unfolding rne_def Let_def by (auto split: if_splits)
qed

lemma quantum_pos: "0 < quantum x"
  by (simp add: quantum_def)

lemma quantum_bound: "x \<noteq> 0 \<Longrightarrow> quantum x \<le> (\<bar>x\<bar> + 1) / 2 ^ 52"
proof -
  assume nz: "x \<noteq> 0"
  define e where "e = \<lfloor>log 2 \<bar>x\<bar>\<rfloor>"
  show ?thesis
  proof (cases "- 1022 \<le> e")
    case True
    then have "max e (- 1022) = e" by simp
    then have "quantum x = 2 powr real_of_int (e - 52)" unfolding quantum_def e_def [symmetric] by simp
    also have "\<dots> = 2 powr (real_of_int e - 52)" by simp
    also have "\<dots> = 2 powr real_of_int e / 2 ^ 52" by (simp add: powr_diff)
    also have "2 powr real_of_int e \<le> 2 powr log 2 \<bar>x\<bar>"
      by (rule powr_mono) (simp_all add: e_def)
    also have "2 powr log 2 \<bar>x\<bar> = \<bar>x\<bar>" using nz by simp
    finally have "quantum x \<le> \<bar>x\<bar> / 2 ^ 52" by (simp add: divide_right_mono)
    also have "\<dots> \<le> (\<bar>x\<bar> + 1) / 2 ^ 52" by (simp add: divide_right_mono)
    finally show ?thesis .
  next
    case False
    then have "max e (- 1022) = - 1022" by simp
    then have "quantum x = 2 powr real_of_int (- 1022 - 52)" unfolding quantum_def e_def [symmetric] by simp
    also have "\<dots> = 2 powr (- 1074)" by simp
    also have "\<dots> \<le> 2 powr (- 52)" by (rule powr_mono) simp_all
    also have "\<dots> = 1 / 2 ^ 52" by (simp add: powr_minus_divide)
    also have "\<dots> \<le> (\<bar>x\<bar> + 1) / 2 ^ 52" by (simp add: divide_right_mono)
    finally show ?thesis .
  qed
qed

lemma fl_error: "\<bar>fl x - x\<bar> \<le> (\<bar>x\<bar> + 1) / 2 ^ 53"
proof (cases "x = 0")
  case True
  then show ?thesis by (simp add: fl_def)
next
  case False
  define u where "u = quantum x"
  have u: "0 < u" by (simp add: u_def quantum_pos)
  have "fl x - x = (real_of_int (rne (x / u)) - x / u) * u"
    using False u by (simp add: fl_def u_def algebra_simps)
  then have "\<bar>fl x - x\<bar> = \<bar>real_of_int (rne (x / u)) - x / u\<bar> * u"
    using u by (simp add: abs_mult)
  also have "\<dots> \<le> 1 / 2 * u"
    using rne_error [of "x / u"] u by (intro mult_right_mono) simp_all
  also have "\<dots> \<le> 1 / 2 * ((\<bar>x\<bar> + 1) / 2 ^ 52)"
    using quantum_bound [OF False] by (simp add: u_def)
  finally show ?thesis by simp
qed

lemma log2_nat_range:
  assumes "0 < n" "n < 2 ^ 32"
  shows "0 \<le> log 2 (real n) \<and> log 2 (real n) < 32"
proof -
  have "n ^ 1 < (2::nat) ^ 32" using assms(2) by simp
  from log2_less [OF assms(1) this] have "log 2 (real n) < 32" by simp
  moreover have "0 \<le> log 2 (real n)" using assms(1) by simp
  ultimately show ?thesis by simp
qed

lemma calcEntropy_core:
  assumes acc: "accurate_log2 Math_log2" and n: "0 < n" "n < 2 ^ 32"
    and len: "length pw < 2 ^ 53"
  shows "\<exists>p. calcEntropy Math_log2 pw n = Num (js_round p) \<and>
           \<bar>p - real (length pw) * log 2 (real n)\<bar> \<le> real (length pw) / 2 ^ 39"
proof -
  define L where "L = real (length pw)"
  define x where "x = log 2 (real n)"
  define m where "m = Math_log2 n"
  define p where "p = fl (L * m)"
  have L0: "0 \<le> L" by (simp add: L_def)
  have "real (length pw) < real ((2::nat) ^ 53)" using len by (simp only: of_nat_less_iff)
  then have L53: "L < 2 ^ 53" by (simp add: L_def)
  have mx: "\<bar>m - x\<bar> \<le> 1 / 2 ^ 40" using acc n by (simp add: accurate_log2_def m_def x_def)
  have xr: "0 \<le> x" "x < 32" using log2_nat_range [OF n] by (simp_all add: x_def)
  have small: "(1::real) / 2 ^ 40 \<le> 1" by simp
  have mb: "\<bar>m\<bar> \<le> 33" using mx xr small by linarith
  have zb: "\<bar>L * m\<bar> \<le> 33 * L"
  proof -
    have "\<bar>L * m\<bar> = L * \<bar>m\<bar>" using L0 by (simp add: abs_mult)
    also have "\<dots> \<le> L * 33" using mb L0 by (intro mult_left_mono) simp_all
    finally show ?thesis by simp
  qed
  have pz: "\<bar>p - L * m\<bar> \<le> (33 * L + 1) / 2 ^ 53"
  proof -
    have "\<bar>p - L * m\<bar> \<le> (\<bar>L * m\<bar> + 1) / 2 ^ 53" unfolding p_def by (rule fl_error)
    also have "\<dots> \<le> (33 * L + 1) / 2 ^ 53" using zb by (simp add: divide_right_mono)
    finally show ?thesis .
  qed
  have zx: "\<bar>L * m - L * x\<bar> \<le> L / 2 ^ 40"
  proof -
    have "\<bar>L * m - L * x\<bar> = L * \<bar>m - x\<bar>"
      using L0 by (simp add: abs_mult right_diff_distrib [symmetric])
    also have "\<dots> \<le> L * (1 / 2 ^ 40)" using mx L0 by (intro mult_left_mono) simp_all
    finally show ?thesis by simp
  qed
  have near: "\<bar>p - L * x\<bar> \<le> L / 2 ^ 39"
  proof (cases "length pw = 0")
    case True
    then show ?thesis by (simp add: p_def L_def fl_def)
  next
    case False
    then have "1 \<le> L" by (simp add: L_def Suc_leI)
    then have sum: "(33 * L + 1) / 2 ^ 53 + L / 2 ^ 40 \<le> L / 2 ^ 39" by (simp add: field_simps)
    have "\<bar>p - L * x\<bar> \<le> \<bar>p - L * m\<bar> + \<bar>L * m - L * x\<bar>" by linarith
    also have "\<dots> \<le> (33 * L + 1) / 2 ^ 53 + L / 2 ^ 40" using pz zx by linarith
    also note sum
    finally show ?thesis .
  qed
  have fin: "\<not> 2 ^ 1024 \<le> \<bar>p\<bar>"
  proof -
    have "\<bar>p\<bar> \<le> \<bar>p - L * m\<bar> + \<bar>L * m\<bar>" by linarith
    also have "\<dots> \<le> (33 * L + 1) / 2 ^ 53 + 33 * L" using pz zb by linarith
    also have "\<dots> < 2 ^ 64" using L53 L0 by (simp add: field_simps)
    also have "(2::real) ^ 64 \<le> 2 ^ 1024" by (rule power_increasing) simp_all
    finally show ?thesis by (simp only: not_le)
  qed
  have "calcEntropy Math_log2 pw n = Num (js_round p)"
    using n(1) fin by (simp add: calcEntropy_def Let_def p_def L_def m_def)
  with near show ?thesis unfolding L_def x_def by blast
qed

lemma accurate_log2_rounded: "accurate_log2 log2_rounded"
  unfolding accurate_log2_def
proof (intro allI impI)
  fix n :: nat assume n: "0 < n" "n < 2 ^ 32"
  from log2_nat_range [OF n] have "\<bar>log 2 (real n)\<bar> \<le> 32" by simp
  then have "(\<bar>log 2 (real n)\<bar> + 1) / 2 ^ 53 \<le> 1 / 2 ^ 40" by simp
  with fl_error [of "log 2 (real n)"]
  show "\<bar>log2_rounded n - log 2 (real n)\<bar> \<le> 1 / 2 ^ 40"
    unfolding log2_rounded_def by linarith
qed

lemma js_round_stable:
  assumes "\<bar>p - x\<bar> \<le> d" "\<forall>k. d < \<bar>x + 1 / 2 - real_of_int k\<bar>"
  shows "js_round p = js_round x"
proof -
  define k where "k = \<lfloor>x + 1 / 2\<rfloor>"
  have k: "real_of_int k \<le> x + 1 / 2" "x + 1 / 2 < real_of_int k + 1"
    unfolding k_def by linarith+
  from assms(2) have a: "d < \<bar>x + 1 / 2 - real_of_int k\<bar>" by blast
  from assms(2) have b: "d < \<bar>x + 1 / 2 - real_of_int (k + 1)\<bar>" by blast
  from a k have lo: "real_of_int k + d < x + 1 / 2" by linarith
  from b k have hi: "x + 1 / 2 < real_of_int k + 1 - d" by simp
  have "real_of_int k \<le> p + 1 / 2" using assms(1) lo by linarith
  moreover have "p + 1 / 2 < real_of_int k + 1" using assms(1) hi by linarith
  ultimately have "\<lfloor>p + 1 / 2\<rfloor> = k" by (rule floor_unique)
  then show ?thesis by (simp add: js_round_def k_def)
qed

lemma far_20_91: "20 / 2 ^ 39 < \<bar>20 * log 2 91 + 1 / 2 - real_of_int k\<bar>"
proof (cases "k \<le> 130")
  case True
  then have "real_of_int k \<le> 130" by simp
  with log2_91_bounds show ?thesis by simp
next
  case False
  then have "131 \<le> k" by simp
  then have "131 \<le> real_of_int k" by simp
  with log2_91_bounds show ?thesis by simp
qed

lemma calcEntropy_20_91:
  assumes "accurate_log2 Math_log2" "length pw = 20"
  shows "calcEntropy Math_log2 pw 91 = Num 130"
proof -
  from calcEntropy_core [OF assms(1), of 91 pw] assms(2) obtain p where
    p: "calcEntropy Math_log2 pw 91 = Num (js_round p)" "\<bar>p - 20 * log 2 91\<bar> \<le> 20 / 2 ^ 39"
    by auto
  have "(20::real) / 2 ^ 39 \<le> 1 / 20" by simp
  with p(2) have "\<bar>p - 20 * log 2 91\<bar> \<le> 1 / 20" by linarith
  from round_20_91 [OF this] p(1) show ?thesis by simp
qed

lemma calcEntropy_12_91:
  assumes "accurate_log2 Math_log2" "length pw = 12"
  shows "calcEntropy Math_log2 pw 91 = Num 78"
proof -
  from calcEntropy_core [OF assms(1), of 91 pw] assms(2) obtain p where
    p: "calcEntropy Math_log2 pw 91 = Num (js_round p)" "\<bar>p - 12 * log 2 91\<bar> \<le> 12 / 2 ^ 39"
    by auto
  have "(12::real) / 2 ^ 39 \<le> 1 / 20" by simp
  with p(2) have "\<bar>p - 12 * log 2 91\<bar> \<le> 1 / 20" by linarith
  from round_12_91 [OF this] p(1) show ?thesis by simp
qed

lemma calcEntropy_12_26:
  assumes "accurate_log2 Math_log2" "length pw = 12"
  shows "calcEntropy Math_log2 pw 26 = Num 56"
proof -
  from calcEntropy_core [OF assms(1), of 26 pw] assms(2) obtain p where
    p: "calcEntropy Math_log2 pw 26 = Num (js_round p)" "\<bar>p - 12 * log 2 26\<bar> \<le> 12 / 2 ^ 39"
    by auto
  have "(12::real) / 2 ^ 39 \<le> 1 / 20" by simp
  with p(2) have "\<bar>p - 12 * log 2 26\<bar> \<le> 1 / 20" by linarith
  from round_12_26 [OF this] p(1) show ?thesis by simp
qed

subsection \<open>Claims about the sampler\<close>

text \<open>
  Claim C5. For every \<open>maxv\<close> in \<open>[1, 2^31)\<close>, every value that \<open>secureRandInt maxv\<close>
  returns lies in \<open>[0, maxv)\<close>, whatever the entropy sequence and the position; the call
  throws nothing. It does return as soon as the sequence holds, at or after the current
  position, one word that the rejection loop accepts.
\<close>

theorem secureRandInt_in_range:
  "1 \<le> maxv \<Longrightarrow> maxv < 2 ^ 31 \<Longrightarrow>
   (\<forall>r. secureRandInt rng maxv pos = Some r \<longrightarrow>
        (\<exists>v pos'. r = Inr (v, pos') \<and> 0 \<le> v \<and> v < maxv)) \<and>
   ((\<exists>n\<ge>pos. accepts maxv (rng n)) \<longrightarrow>
        (\<exists>v pos'. secureRandInt rng maxv pos = Some (Inr (v, pos'))))"
proof (intro conjI allI impI)
  fix r assume "1 \<le> maxv" "secureRandInt rng maxv pos = Some r"
  then show "\<exists>v pos'. r = Inr (v, pos') \<and> 0 \<le> v \<and> v < maxv"
    using secureRandInt_range [of maxv rng pos r] by auto
next
  assume "1 \<le> maxv" "maxv < 2 ^ 31" "\<exists>n\<ge>pos. accepts maxv (rng n)"
  then show "\<exists>v pos'. secureRandInt rng maxv pos = Some (Inr (v, pos'))"
    using secureRandInt_total [where rng = rng and maxv = maxv and pos = pos] by auto
qed

text \<open>The sampler run for \<open>maxv = 5\<close> on the words 6, 7, 8, ...: two rejections, then 0.\<close>

theorem secureRandInt_in_range_witness:
  "(1::int) \<le> 5 \<and> (5::int) < 2 ^ 31 \<and> accepts 5 (counting 2) \<and>
   secureRandInt counting 5 0 = Some (Inr (0, 3)) \<and> (0::int) \<le> 0 \<and> (0::int) < 5"
proof -
  have a: "accepts 5 (counting 2)" by code_simp
  have e: "secureRandInt counting 5 0 = Some (Inr (0, 3))" by code_simp
  from a have "\<exists>n\<ge>0. accepts 5 (counting n)" by blast
  with secureRandInt_in_range [of 5 counting 0] e show ?thesis using a by simp
qed

text \<open>
  Claim C6, amended. For \<open>0 < maxv < 2^31\<close> the mask computed before the acceptance loop
  is the smallest integer of the form \<open>2^k - 1\<close> that is at least \<open>maxv\<close> (not
  \<open>maxv - 1\<close>); for \<open>maxv \<ge> 2^31\<close> the 32-bit shift overflows and the mask loop
  never ends.
\<close>

theorem mask_loop_smallest_cover:
  "0 < maxv \<Longrightarrow>
   (maxv < 2 ^ 31 \<longrightarrow>
     (\<exists>k. mask_loop 1 maxv = Some (2 ^ k - 1) \<and> maxv \<le> 2 ^ k - 1 \<and>
          (\<forall>j. maxv \<le> 2 ^ j - 1 \<longrightarrow> (2::int) ^ k - 1 \<le> 2 ^ j - 1))) \<and>
   (2 ^ 31 \<le> maxv \<longrightarrow> mask_loop 1 maxv = None)"
proof (intro conjI impI)
  assume a: "0 < maxv" "maxv < 2 ^ 31"
  from mask_loop_total [OF a] obtain K where K: "mask_loop 1 maxv = Some (2 ^ K - 1)"
    "maxv \<le> 2 ^ K - 1" "\<forall>j. j < K \<longrightarrow> 2 ^ j - 1 < maxv" by blast
  have "\<forall>j. maxv \<le> 2 ^ j - 1 \<longrightarrow> (2::int) ^ K - 1 \<le> 2 ^ j - 1"
  proof (intro allI impI)
    fix j assume "maxv \<le> 2 ^ j - 1"
    with K(3) have "K \<le> j" by (meson not_le)
    then have "(2::int) ^ K \<le> 2 ^ j" by (intro power_increasing) auto
    then show "(2::int) ^ K - 1 \<le> 2 ^ j - 1" by linarith
  qed
  with K show "\<exists>k. mask_loop 1 maxv = Some (2 ^ k - 1) \<and> maxv \<le> 2 ^ k - 1 \<and>
          (\<forall>j. maxv \<le> 2 ^ j - 1 \<longrightarrow> (2::int) ^ k - 1 \<le> 2 ^ j - 1)" by blast
next
  assume "2 ^ 31 \<le> maxv"
  then show "mask_loop 1 maxv = None" by (rule mask_loop_diverges)
qed

text \<open>The mask for \<open>maxv = 5\<close> is 7.\<close>

theorem mask_loop_smallest_cover_witness:
  "(0::int) < 5 \<and> (5::int) < 2 ^ 31 \<and> mask_loop 1 5 = Some (2 ^ 3 - 1) \<and> \<not> (2 ^ 31 \<le> (5::int))"
proof -
  have e: "mask_loop 1 5 = Some 7" by code_simp
  from mask_loop_smallest_cover [of 5] e show ?thesis by simp
qed

text \<open>
  For \<open>maxv = 2\<close> the mask is 3, although \<open>2^1 - 1 = 1\<close> is at least \<open>maxv - 1\<close> and
  smaller.
\<close>

theorem mask_loop_smallest_cover_counterexample:
  "mask_loop 1 2 = Some 3 \<and> (2::int) - 1 \<le> 2 ^ 1 - 1 \<and> (2::int) ^ 1 - 1 < 3"
  by code_simp

text \<open>
  Claim C7, amended. With \<open>maxv = 1\<close> the sampler returns 0 whenever it returns. Its mask
  is 1, so a draw is accepted exactly when the word drawn is even: an even first word is
  the only word consumed, an odd word is rejected and the loop draws again, and on a
  sequence of odd words only the call never returns.
\<close>

theorem secureRandInt_max_one:
  "(\<forall>r. secureRandInt rng 1 pos = Some r \<longrightarrow> (\<exists>pos'. r = Inr (0, pos') \<and> pos < pos')) \<and>
   (even (uint (rng pos)) \<longrightarrow> secureRandInt rng 1 pos = Some (Inr (0, Suc pos))) \<and>
   (odd (uint (rng pos)) \<longrightarrow> secureRandInt rng 1 pos = secureRandInt rng 1 (Suc pos)) \<and>
   ((\<forall>n\<ge>pos. odd (uint (rng n))) \<longrightarrow> secureRandInt rng 1 pos = None)"
proof (intro conjI allI impI)
  fix r assume "secureRandInt rng 1 pos = Some r"
  from secureRandInt_range [OF _ this] show "\<exists>pos'. r = Inr (0, pos') \<and> pos < pos'" by auto
next
  assume "even (uint (rng pos))"
  then show "secureRandInt rng 1 pos = Some (Inr (0, Suc pos))" by (rule secureRandInt_one_even)
next
  assume "odd (uint (rng pos))"
  then show "secureRandInt rng 1 pos = secureRandInt rng 1 (Suc pos)" by (rule secureRandInt_one_odd)
next
  assume "\<forall>n\<ge>pos. odd (uint (rng n))"
  then show "secureRandInt rng 1 pos = None" by (rule secureRandInt_one_diverges)
qed

text \<open>An odd word followed by even ones, and a sequence of odd words only.\<close>

theorem secureRandInt_max_one_witness:
  "secureRandInt one_then_zeros 1 1 = Some (Inr (0, 2)) \<and>
   secureRandInt one_then_zeros 1 0 = secureRandInt one_then_zeros 1 1 \<and>
   secureRandInt ones 1 0 = None"
proof -
  have "even (uint (one_then_zeros 1))"
    by (simp add: one_then_zeros_def)
  with secureRandInt_max_one [of one_then_zeros 1] have a: "secureRandInt one_then_zeros 1 1 = Some (Inr (0, 2))"
    by simp
  have "odd (uint (one_then_zeros 0))"
    by (simp add: one_then_zeros_def)
  with secureRandInt_max_one [of one_then_zeros 0]
  have b: "secureRandInt one_then_zeros 1 0 = secureRandInt one_then_zeros 1 1"
    by simp
  have "\<forall>n\<ge>0. odd (uint (ones n))" by (simp add: ones_def)
  with secureRandInt_max_one [of ones 0] have c: "secureRandInt ones 1 0 = None" by blast
  from a b c show ?thesis by simp
qed

text \<open>
  For \<open>maxv = 1\<close> and a first word of 1 the first masked draw is rejected, and two
  words are consumed.
\<close>

theorem secureRandInt_max_one_counterexample:
  "secureRandInt one_then_zeros 1 0 = Some (Inr (0, 2))"
  by code_simp

text \<open>
  Claim C8. For every \<open>maxv \<le> 0\<close> the sampler throws \<open>RangeError\<close>: it returns no value
  and does not replace \<open>maxv\<close> by a valid bound.
\<close>

theorem secureRandInt_nonpositive: "maxv \<le> 0 \<Longrightarrow> secureRandInt rng maxv pos = Some (Inl RangeError)"
  by (simp add: secureRandInt_def)

text \<open>The sampler called with \<open>-3\<close>.\<close>

theorem secureRandInt_nonpositive_witness:
  "(- 3::int) \<le> 0 \<and> secureRandInt zeros (- 3) 0 = Some (Inl RangeError)"
  using secureRandInt_nonpositive [of "- 3" zeros 0] by simp

subsection \<open>Claim about the shuffle\<close>

text \<open>
  Claim C10. For every array, entropy sequence and position, every result of
  \<open>secureShuffle\<close> is an array with the same multiset of elements as the input, and
  nothing is thrown; on a fair entropy sequence and for fewer than \<open>2^31\<close> elements
  the call returns; an array of length 0 or 1 is returned unchanged and no word is drawn.
\<close>

theorem secureShuffle_permutes:
  "(\<forall>r. secureShuffle rng arr pos = Some r \<longrightarrow>
        (\<exists>arr' pos'. r = Inr (arr', pos') \<and> mset arr' = mset arr)) \<and>
   (fair rng \<and> int (length arr) < 2 ^ 31 \<longrightarrow>
        (\<exists>arr' pos'. secureShuffle rng arr pos = Some (Inr (arr', pos')) \<and> mset arr' = mset arr)) \<and>
   (length arr \<le> 1 \<longrightarrow> secureShuffle rng arr pos = Some (Inr (arr, pos)))"
proof (intro conjI allI impI)
  fix r assume "secureShuffle rng arr pos = Some r"
  from secureShuffle_partial [OF this]
  show "\<exists>arr' pos'. r = Inr (arr', pos') \<and> mset arr' = mset arr" by blast
next
  assume "fair rng \<and> int (length arr) < 2 ^ 31"
  then have "fair rng" "int (length arr) < 2 ^ 31" by simp_all
  from secureShuffle_total [OF this, of pos] obtain arr' pos'
    where s: "secureShuffle rng arr pos = Some (Inr (arr', pos'))" by blast
  from secureShuffle_partial [OF s] s
  show "\<exists>arr' pos'. secureShuffle rng arr pos = Some (Inr (arr', pos')) \<and> mset arr' = mset arr"
    by simp
next
  assume "length arr \<le> 1"
  then show "secureShuffle rng arr pos = Some (Inr (arr, pos))" by (rule secureShuffle_short)
qed

text \<open>A four-element array shuffled on two entropy sequences, and a singleton.\<close>

theorem secureShuffle_permutes_witness:
  "secureShuffle counting [Some (1::nat), Some 2, Some 3, Some 4] 0
     = Some (Inr ([Some 3, Some 4, Some 2, Some 1], 7)) \<and>
   mset [Some (3::nat), Some 4, Some 2, Some 1] = mset [Some 1, Some 2, Some 3, Some 4] \<and>
   fair zeros \<and> int (length [Some (1::nat), Some 2, Some 3, Some 4]) < 2 ^ 31 \<and>
   (\<exists>arr' pos'. secureShuffle zeros [Some (1::nat), Some 2, Some 3, Some 4] 0 = Some (Inr (arr', pos')) \<and>
      mset arr' = mset [Some 1, Some 2, Some 3, Some 4]) \<and>
   length [Some (1::nat)] \<le> 1 \<and> secureShuffle counting [Some (1::nat)] 5 = Some (Inr ([Some 1], 5))"
proof -
  have g: "secureShuffle counting [Some (1::nat), Some 2, Some 3, Some 4] 0
     = Some (Inr ([Some 3, Some 4, Some 2, Some 1], 7))" by code_simp
  have l: "int (length [Some (1::nat), Some 2, Some 3, Some 4]) < 2 ^ 31" by simp
  from secureShuffle_permutes [of counting "[Some (1::nat), Some 2, Some 3, Some 4]" 0] g
  have c1: "mset [Some (3::nat), Some 4, Some 2, Some 1] = mset [Some 1, Some 2, Some 3, Some 4]"
    by blast
  from secureShuffle_permutes [of zeros "[Some (1::nat), Some 2, Some 3, Some 4]" 0] fair_zeros l
  have c2: "\<exists>arr' pos'. secureShuffle zeros [Some (1::nat), Some 2, Some 3, Some 4] 0 = Some (Inr (arr', pos')) \<and>
      mset arr' = mset [Some 1, Some 2, Some 3, Some 4]" by blast
  have s: "length [Some (1::nat)] \<le> 1" by simp
  with secureShuffle_permutes [of counting "[Some (1::nat)]" 5]
  have c3: "secureShuffle counting [Some (1::nat)] 5 = Some (Inr ([Some 1], 5))" by blast
  from g l c1 c2 c3 s fair_zeros show ?thesis by blast
qed

subsection \<open>Claims about the generation algorithm\<close>

text \<open>
  Claim C1. For a configuration with at least one pool enabled, at least one pool left
  after the ambiguity filter, a non-negative length and, when \<open>guarantee\<close> is set, a
  length of at least the number of filtered pools, every result of
  \<open>generatePassword\<close> is a password, and its character count is exactly the configured
  length. On a fair entropy sequence and for a length below \<open>2^31\<close> the call does
  return such a password.
\<close>

theorem generatePassword_length:
  "activePools cfg \<noteq> [] \<Longrightarrow> filteredPools cfg \<noteq> [] \<Longrightarrow> 0 \<le> length_cfg cfg \<Longrightarrow>
   (guarantee cfg \<longrightarrow> int (length (filteredPools cfg)) \<le> length_cfg cfg) \<Longrightarrow>
   (\<forall>r. generatePassword rng cfg pos = Some r \<longrightarrow>
        (\<exists>pw pos'. r = Inr (pw, pos') \<and> int (length pw) = length_cfg cfg)) \<and>
   (fair rng \<and> length_cfg cfg < 2 ^ 31 \<longrightarrow>
        (\<exists>pw pos'. generatePassword rng cfg pos = Some (Inr (pw, pos')) \<and>
                   int (length pw) = length_cfg cfg))"
proof -
  assume act: "activePools cfg \<noteq> []" and nn: "0 \<le> length_cfg cfg"
    and gl: "guarantee cfg \<longrightarrow> int (length (filteredPools cfg)) \<le> length_cfg cfg"
  have len: "\<exists>pw pos'. r = Inr (pw, pos') \<and> int (length pw) = length_cfg cfg"
    if "generatePassword rng cfg pos = Some r" for r
    using generatePassword_shape [OF that act] nn gl by (auto simp: max_def split: if_splits)
  show ?thesis
  proof (intro conjI allI impI)
    fix r assume "generatePassword rng cfg pos = Some r"
    then show "\<exists>pw pos'. r = Inr (pw, pos') \<and> int (length pw) = length_cfg cfg" by (rule len)
  next
    assume "fair rng \<and> length_cfg cfg < 2 ^ 31"
    then have "fair rng" "length_cfg cfg < 2 ^ 31" by simp_all
    from generatePassword_total [OF this(1) act this(2), of pos] obtain pw pos'
      where g: "generatePassword rng cfg pos = Some (Inr (pw, pos'))" by blast
    from len [OF g] g
    show "\<exists>pw pos'. generatePassword rng cfg pos = Some (Inr (pw, pos')) \<and>
                   int (length pw) = length_cfg cfg" by simp
  qed
qed

text \<open>The full configuration of length 12, run on two entropy sequences.\<close>

theorem generatePassword_length_witness:
  "activePools cfg_all \<noteq> [] \<and> filteredPools cfg_all \<noteq> [] \<and> 0 \<le> length_cfg cfg_all \<and>
   guarantee cfg_all \<and> int (length (filteredPools cfg_all)) \<le> length_cfg cfg_all \<and>
   fair zeros \<and> length_cfg cfg_all < 2 ^ 31 \<and>
   generatePassword counting cfg_all 0 = Some (Inr (''TRQUVhHPNM)2'', 24)) \<and>
   int (length ''TRQUVhHPNM)2'') = length_cfg cfg_all \<and>
   (\<exists>pw pos'. generatePassword zeros cfg_all 0 = Some (Inr (pw, pos')) \<and>
              int (length pw) = length_cfg cfg_all)"
proof -
  have a: "activePools cfg_all \<noteq> []" by code_simp
  have b: "filteredPools cfg_all \<noteq> []" by code_simp
  have c: "0 \<le> length_cfg cfg_all" by (simp add: cfg_all_def)
  have d: "guarantee cfg_all" by (simp add: cfg_all_def)
  have e: "int (length (filteredPools cfg_all)) \<le> length_cfg cfg_all" by code_simp
  have f: "length_cfg cfg_all < 2 ^ 31" by (simp add: cfg_all_def)
  have g: "generatePassword counting cfg_all 0 = Some (Inr (''TRQUVhHPNM)2'', 24))" by code_simp
  have h: "int (length ''TRQUVhHPNM)2'') = length_cfg cfg_all" by (simp add: cfg_all_def)
  from e have e': "guarantee cfg_all \<longrightarrow> int (length (filteredPools cfg_all)) \<le> length_cfg cfg_all"
    by simp
  from generatePassword_length [OF a b c e', of zeros 0] fair_zeros f
  have "\<exists>pw pos'. generatePassword zeros cfg_all 0 = Some (Inr (pw, pos')) \<and>
              int (length pw) = length_cfg cfg_all" by blast
  with a b c d e f g h fair_zeros show ?thesis by blast
qed

text \<open>
  Claim C2. With \<open>guarantee\<close> set and a length of at least the number of filtered pools,
  every generated password contains at least one character of each enabled pool as it
  is after the ambiguity filter; a fair entropy sequence yields such a password.
\<close>

theorem generatePassword_covers_pools:
  "guarantee cfg \<Longrightarrow> int (length (filteredPools cfg)) \<le> length_cfg cfg \<Longrightarrow>
   (\<forall>pw pos'. generatePassword rng cfg pos = Some (Inr (pw, pos')) \<longrightarrow>
        (\<forall>p\<in>set (filteredPools cfg). \<exists>c\<in>set pw. c \<in> set (chars p))) \<and>
   (fair rng \<and> length_cfg cfg < 2 ^ 31 \<and> activePools cfg \<noteq> [] \<longrightarrow>
        (\<exists>pw pos'. generatePassword rng cfg pos = Some (Inr (pw, pos')) \<and>
                   (\<forall>p\<in>set (filteredPools cfg). \<exists>c\<in>set pw. c \<in> set (chars p))))"
proof -
  assume gu: "guarantee cfg"
  have cov: "\<forall>p\<in>set (filteredPools cfg). \<exists>c\<in>set pw. c \<in> set (chars p)"
    if g: "generatePassword rng cfg pos = Some (Inr (pw, pos'))" for pw pos'
  proof (cases "activePools cfg = []")
    case True
    then show ?thesis using length_filteredPools [of cfg] by simp
  next
    case False
    from generatePassword_shape [OF g False] gu show ?thesis by simp
  qed
  show ?thesis
  proof (intro conjI allI impI)
    fix pw pos' assume "generatePassword rng cfg pos = Some (Inr (pw, pos'))"
    then show "\<forall>p\<in>set (filteredPools cfg). \<exists>c\<in>set pw. c \<in> set (chars p)" by (rule cov)
  next
    assume "fair rng \<and> length_cfg cfg < 2 ^ 31 \<and> activePools cfg \<noteq> []"
    then have h: "fair rng" "activePools cfg \<noteq> []" "length_cfg cfg < 2 ^ 31" by simp_all
    from generatePassword_total [OF h, of pos] obtain pw pos'
      where g: "generatePassword rng cfg pos = Some (Inr (pw, pos'))" by blast
    from cov [OF g] g
    show "\<exists>pw pos'. generatePassword rng cfg pos = Some (Inr (pw, pos')) \<and>
                   (\<forall>p\<in>set (filteredPools cfg). \<exists>c\<in>set pw. c \<in> set (chars p))" by blast
  qed
qed

text \<open>The same run: each of the four filtered pools has a character in the password.\<close>

theorem generatePassword_covers_pools_witness:
  "guarantee cfg_all \<and> int (length (filteredPools cfg_all)) \<le> length_cfg cfg_all \<and>
   generatePassword counting cfg_all 0 = Some (Inr (''TRQUVhHPNM)2'', 24)) \<and>
   list_all (\<lambda>p. \<exists>c\<in>set ''TRQUVhHPNM)2''. c \<in> set (chars p)) (filteredPools cfg_all) \<and>
   fair zeros \<and> length_cfg cfg_all < 2 ^ 31 \<and> activePools cfg_all \<noteq> [] \<and>
   (\<exists>pw pos'. generatePassword zeros cfg_all 0 = Some (Inr (pw, pos')) \<and>
              (\<forall>p\<in>set (filteredPools cfg_all). \<exists>c\<in>set pw. c \<in> set (chars p)))"
proof -
  have a: "activePools cfg_all \<noteq> []" by code_simp
  have d: "guarantee cfg_all" by (simp add: cfg_all_def)
  have e: "int (length (filteredPools cfg_all)) \<le> length_cfg cfg_all" by code_simp
  have f: "length_cfg cfg_all < 2 ^ 31" by (simp add: cfg_all_def)
  have g: "generatePassword counting cfg_all 0 = Some (Inr (''TRQUVhHPNM)2'', 24))" by code_simp
  note t = generatePassword_covers_pools [OF d e]
  from t [of counting 0] g
  have c1: "list_all (\<lambda>p. \<exists>c\<in>set ''TRQUVhHPNM)2''. c \<in> set (chars p)) (filteredPools cfg_all)"
    unfolding list_all_iff by blast
  from t [of zeros 0] fair_zeros f a
  have c2: "\<exists>pw pos'. generatePassword zeros cfg_all 0 = Some (Inr (pw, pos')) \<and>
              (\<forall>p\<in>set (filteredPools cfg_all). \<exists>c\<in>set pw. c \<in> set (chars p))" by blast
  from a d e f g c1 c2 fair_zeros show ?thesis by blast
qed

text \<open>
  Claim C3. With \<open>noAmbig\<close> set, no filtered pool and not the combined alphabet contains
  a character of \<open>AMBIGUOUS\<close>, and no character of a generated password is in
  \<open>AMBIGUOUS\<close>; a fair entropy sequence yields such a password.
\<close>

theorem generatePassword_no_ambiguous:
  "noAmbig cfg \<Longrightarrow>
   (\<forall>p\<in>set (filteredPools cfg). set (chars p) \<inter> AMBIGUOUS = {}) \<and>
   set (alphabet cfg) \<inter> AMBIGUOUS = {} \<and>
   (\<forall>pw pos'. generatePassword rng cfg pos = Some (Inr (pw, pos')) \<longrightarrow> set pw \<inter> AMBIGUOUS = {}) \<and>
   (fair rng \<and> length_cfg cfg < 2 ^ 31 \<and> activePools cfg \<noteq> [] \<longrightarrow>
        (\<exists>pw pos'. generatePassword rng cfg pos = Some (Inr (pw, pos')) \<and> set pw \<inter> AMBIGUOUS = {}))"
proof -
  assume na: "noAmbig cfg"
  have clean: "set pw \<inter> AMBIGUOUS = {}"
    if g: "generatePassword rng cfg pos = Some (Inr (pw, pos'))" for pw pos'
  proof -
    have act: "activePools cfg \<noteq> []"
    proof
      assume "activePools cfg = []"
      then have "generatePassword rng cfg pos = Some (Inl NoTypeSelected)"
        by (simp add: generatePassword_def)
      with g show False by simp
    qed
    from generatePassword_shape [OF g act] have "set pw \<subseteq> set (alphabet cfg)" by simp
    with alphabet_noAmbig [OF na] show ?thesis by blast
  qed
  show ?thesis
  proof (intro conjI allI impI ballI)
    fix p assume "p \<in> set (filteredPools cfg)"
    with na show "set (chars p) \<inter> AMBIGUOUS = {}" by (rule filteredPools_noAmbig)
  next
    from na show "set (alphabet cfg) \<inter> AMBIGUOUS = {}" by (rule alphabet_noAmbig)
  next
    fix pw pos' assume "generatePassword rng cfg pos = Some (Inr (pw, pos'))"
    then show "set pw \<inter> AMBIGUOUS = {}" by (rule clean)
  next
    assume "fair rng \<and> length_cfg cfg < 2 ^ 31 \<and> activePools cfg \<noteq> []"
    then have h: "fair rng" "activePools cfg \<noteq> []" "length_cfg cfg < 2 ^ 31" by simp_all
    from generatePassword_total [OF h, of pos] obtain pw pos'
      where g: "generatePassword rng cfg pos = Some (Inr (pw, pos'))" by blast
    from clean [OF g] g
    show "\<exists>pw pos'. generatePassword rng cfg pos = Some (Inr (pw, pos')) \<and> set pw \<inter> AMBIGUOUS = {}"
      by blast
  qed
qed

text \<open>The same run again, read for the ambiguous characters.\<close>

theorem generatePassword_no_ambiguous_witness:
  "noAmbig cfg_all \<and>
   list_all (\<lambda>p. set (chars p) \<inter> AMBIGUOUS = {}) (filteredPools cfg_all) \<and>
   generatePassword counting cfg_all 0 = Some (Inr (''TRQUVhHPNM)2'', 24)) \<and>
   set ''TRQUVhHPNM)2'' \<inter> AMBIGUOUS = {} \<and>
   fair zeros \<and> length_cfg cfg_all < 2 ^ 31 \<and> activePools cfg_all \<noteq> [] \<and>
   (\<exists>pw pos'. generatePassword zeros cfg_all 0 = Some (Inr (pw, pos')) \<and> set pw \<inter> AMBIGUOUS = {})"
proof -
  have a: "activePools cfg_all \<noteq> []" by code_simp
  have d: "noAmbig cfg_all" by (simp add: cfg_all_def)
  have f: "length_cfg cfg_all < 2 ^ 31" by (simp add: cfg_all_def)
  have g: "generatePassword counting cfg_all 0 = Some (Inr (''TRQUVhHPNM)2'', 24))" by code_simp
  note t = generatePassword_no_ambiguous [OF d]
  from t [of counting 0]
  have c0: "list_all (\<lambda>p. set (chars p) \<inter> AMBIGUOUS = {}) (filteredPools cfg_all)"
    unfolding list_all_iff by blast
  from t [of counting 0] g have c1: "set ''TRQUVhHPNM)2'' \<inter> AMBIGUOUS = {}" by blast
  from t [of zeros 0] fair_zeros f a
  have c2: "\<exists>pw pos'. generatePassword zeros cfg_all 0 = Some (Inr (pw, pos')) \<and> set pw \<inter> AMBIGUOUS = {}"
    by blast
  from a d f g c0 c1 c2 fair_zeros show ?thesis by blast
qed

text \<open>
  Claim C4, amended. With \<open>guarantee\<close> set and a length smaller than the number of
  enabled pools, \<open>generatePassword\<close> reports no error: every result is a password made
  of the seeded characters alone, one for each enabled pool, so its character count is
  the number of enabled pools and not the configured length; a fair entropy sequence
  yields such a password.
\<close>

theorem generatePassword_short_length:
  "guarantee cfg \<Longrightarrow> activePools cfg \<noteq> [] \<Longrightarrow> length_cfg cfg < int (length (activePools cfg)) \<Longrightarrow>
   (\<forall>r. generatePassword rng cfg pos = Some r \<longrightarrow>
        (\<exists>pw pos'. r = Inr (pw, pos') \<and> length pw = length (activePools cfg) \<and>
           (\<forall>p\<in>set (filteredPools cfg). \<exists>c\<in>set pw. c \<in> set (chars p)))) \<and>
   (fair rng \<longrightarrow> (\<exists>pw pos'. generatePassword rng cfg pos = Some (Inr (pw, pos')) \<and>
                    length pw = length (activePools cfg)))"
proof -
  assume gu: "guarantee cfg" and act: "activePools cfg \<noteq> []"
    and sh: "length_cfg cfg < int (length (activePools cfg))"
  have res: "\<exists>pw pos'. r = Inr (pw, pos') \<and> length pw = length (activePools cfg) \<and>
           (\<forall>p\<in>set (filteredPools cfg). \<exists>c\<in>set pw. c \<in> set (chars p))"
    if "generatePassword rng cfg pos = Some r" for r
    using generatePassword_shape [OF that act] gu sh
    by (auto simp: max_def length_filteredPools)
  show ?thesis
  proof (intro conjI allI impI)
    fix r assume "generatePassword rng cfg pos = Some r"
    then show "\<exists>pw pos'. r = Inr (pw, pos') \<and> length pw = length (activePools cfg) \<and>
           (\<forall>p\<in>set (filteredPools cfg). \<exists>c\<in>set pw. c \<in> set (chars p))" by (rule res)
  next
    assume fr: "fair rng"
    have "length (activePools cfg) \<le> 4" by (simp add: activePools_def)
    with sh have "length_cfg cfg < 2 ^ 31" by simp
    from generatePassword_total [OF fr act this, of pos] obtain pw pos'
      where g: "generatePassword rng cfg pos = Some (Inr (pw, pos'))" by blast
    from res [OF g] g
    show "\<exists>pw pos'. generatePassword rng cfg pos = Some (Inr (pw, pos')) \<and>
                    length pw = length (activePools cfg)" by simp
  qed
qed

text \<open>Length 2 with four pools enabled.\<close>

theorem generatePassword_short_length_witness:
  "guarantee cfg_short \<and> activePools cfg_short \<noteq> [] \<and>
   length_cfg cfg_short < int (length (activePools cfg_short)) \<and>
   generatePassword counting cfg_short 0 = Some (Inr ('')hG8'', 8)) \<and>
   length '')hG8'' = length (activePools cfg_short) \<and> fair zeros \<and>
   (\<exists>pw pos'. generatePassword zeros cfg_short 0 = Some (Inr (pw, pos')) \<and>
              length pw = length (activePools cfg_short))"
proof -
  have a: "activePools cfg_short \<noteq> []" by code_simp
  have d: "guarantee cfg_short" by (simp add: cfg_short_def)
  have e: "length_cfg cfg_short < int (length (activePools cfg_short))" by code_simp
  have g: "generatePassword counting cfg_short 0 = Some (Inr ('')hG8'', 8))" by code_simp
  note t = generatePassword_short_length [OF d a e]
  from t [of counting 0] g have c1: "length '')hG8'' = length (activePools cfg_short)" by blast
  from t [of zeros 0] fair_zeros
  have c2: "\<exists>pw pos'. generatePassword zeros cfg_short 0 = Some (Inr (pw, pos')) \<and>
              length pw = length (activePools cfg_short)" by blast
  from a d e g c1 c2 fair_zeros show ?thesis by blast
qed

text \<open>
  Length 2, four pools enabled, \<open>guarantee\<close> set, entropy all zero: the result is the
  four-character password \<open>a0!A\<close>, not an error.
\<close>

theorem generatePassword_short_length_counterexample:
  "guarantee cfg_short \<and> length_cfg cfg_short = 2 \<and> length (activePools cfg_short) = 4 \<and>
   generatePassword zeros cfg_short 0 = Some (Inr (''a0!A'', 7))"
  by code_simp

subsection \<open>Claim about the entropy estimate\<close>

text \<open>
  Claim C9, amended. Let the platform's \<open>Math.log2\<close> be within \<open>2^-40\<close> of the true
  logarithm, the alphabet size be positive and below \<open>2^32\<close> and the password shorter
  than \<open>2^53\<close>. Then the estimate is an integer within \<open>1/2 + length/2^39\<close> of
  \<open>length * log2(alphabetSize)\<close>, and it is that product rounded to the nearest integer
  whenever the product is farther than \<open>length/2^39\<close> from every rounding boundary (a
  product closer to a boundary can be rounded the other way, because the code rounds the
  double-precision product). For length 20 and size 91 the estimate is 130 (not 131), for
  length 12 and size 26 it is 56, for length 12 and size 91 it is 78 (not 79).
\<close>

theorem calcEntropy_rounds:
  "accurate_log2 Math_log2 \<Longrightarrow> 0 < alphabetSize \<Longrightarrow> alphabetSize < 2 ^ 32 \<Longrightarrow>
   length password < 2 ^ 53 \<Longrightarrow>
   (\<exists>e. calcEntropy Math_log2 password alphabetSize = Num e \<and>
        \<bar>real_of_int e - real (length password) * log 2 (real alphabetSize)\<bar>
          \<le> 1 / 2 + real (length password) / 2 ^ 39) \<and>
   ((\<forall>k. real (length password) / 2 ^ 39
           < \<bar>real (length password) * log 2 (real alphabetSize) + 1 / 2 - real_of_int k\<bar>) \<longrightarrow>
      calcEntropy Math_log2 password alphabetSize
        = Num (js_round (real (length password) * log 2 (real alphabetSize)))) \<and>
   (length password = 20 \<and> alphabetSize = 91 \<longrightarrow>
      calcEntropy Math_log2 password alphabetSize = Num 130) \<and>
   (length password = 12 \<and> alphabetSize = 26 \<longrightarrow>
      calcEntropy Math_log2 password alphabetSize = Num 56) \<and>
   (length password = 12 \<and> alphabetSize = 91 \<longrightarrow>
      calcEntropy Math_log2 password alphabetSize = Num 78)"
proof -
  assume acc: "accurate_log2 Math_log2" and n: "0 < alphabetSize" "alphabetSize < 2 ^ 32"
    and len: "length password < 2 ^ 53"
  define x where "x = real (length password) * log 2 (real alphabetSize)"
  define d where "d = real (length password) / 2 ^ 39"
  from calcEntropy_core [OF acc n len] obtain p where
    p: "calcEntropy Math_log2 password alphabetSize = Num (js_round p)" "\<bar>p - x\<bar> \<le> d"
    unfolding x_def d_def by blast
  have g: "\<exists>e. calcEntropy Math_log2 password alphabetSize = Num e \<and>
        \<bar>real_of_int e - x\<bar> \<le> 1 / 2 + d"
  proof -
    have "\<bar>real_of_int (js_round p) - x\<bar> \<le> \<bar>real_of_int (js_round p) - p\<bar> + \<bar>p - x\<bar>"
      by linarith
    also have "\<dots> \<le> 1 / 2 + d" using js_round_near [of p] p(2) by linarith
    finally show ?thesis using p(1) by blast
  qed
  have nearest: "calcEntropy Math_log2 password alphabetSize = Num (js_round x)"
    if "\<forall>k. d < \<bar>x + 1 / 2 - real_of_int k\<bar>"
    using js_round_stable [OF p(2) that] p(1) by simp
  show ?thesis
  proof (intro conjI impI)
    from g show "\<exists>e. calcEntropy Math_log2 password alphabetSize = Num e \<and>
        \<bar>real_of_int e - real (length password) * log 2 (real alphabetSize)\<bar>
          \<le> 1 / 2 + real (length password) / 2 ^ 39"
      unfolding x_def d_def .
  next
    assume "\<forall>k. real (length password) / 2 ^ 39
           < \<bar>real (length password) * log 2 (real alphabetSize) + 1 / 2 - real_of_int k\<bar>"
    then have "\<forall>k. d < \<bar>x + 1 / 2 - real_of_int k\<bar>" unfolding x_def d_def .
    from nearest [OF this]
    show "calcEntropy Math_log2 password alphabetSize
        = Num (js_round (real (length password) * log 2 (real alphabetSize)))"
      unfolding x_def .
  next
    assume "length password = 20 \<and> alphabetSize = 91"
    with calcEntropy_20_91 [OF acc, of password]
    show "calcEntropy Math_log2 password alphabetSize = Num 130" by simp
  next
    assume "length password = 12 \<and> alphabetSize = 26"
    with calcEntropy_12_26 [OF acc, of password]
    show "calcEntropy Math_log2 password alphabetSize = Num 56" by simp
  next
    assume "length password = 12 \<and> alphabetSize = 91"
    with calcEntropy_12_91 [OF acc, of password]
    show "calcEntropy Math_log2 password alphabetSize = Num 78" by simp
  qed
qed

text \<open>
  The estimates of a 20-character and of a 12-character password, with the correctly
  rounded logarithm as the platform's.
\<close>

theorem calcEntropy_rounds_witness:
  "accurate_log2 log2_rounded \<and> (0::nat) < 91 \<and> (91::nat) < 2 ^ 32 \<and>
   length ''TRQUVhHPNM)2a0!AAAAA'' < 2 ^ 53 \<and> length ''TRQUVhHPNM)2a0!AAAAA'' = 20 \<and>
   calcEntropy log2_rounded ''TRQUVhHPNM)2a0!AAAAA'' 91 = Num 130 \<and>
   (\<forall>k. 20 / 2 ^ 39 < \<bar>20 * log 2 91 + 1 / 2 - real_of_int k\<bar>) \<and>
   calcEntropy log2_rounded ''TRQUVhHPNM)2a0!AAAAA'' 91 = Num (js_round (20 * log 2 91)) \<and>
   (0::nat) < 26 \<and> (26::nat) < 2 ^ 32 \<and> length ''TRQUVhHPNM)2'' = 12 \<and>
   calcEntropy log2_rounded ''TRQUVhHPNM)2'' 26 = Num 56 \<and>
   calcEntropy log2_rounded ''TRQUVhHPNM)2'' 91 = Num 78"
proof -
  note acc = accurate_log2_rounded
  have far: "\<forall>k. 20 / 2 ^ 39 < \<bar>20 * log 2 91 + 1 / 2 - real_of_int k\<bar>"
    using far_20_91 by blast
  have a: "calcEntropy log2_rounded ''TRQUVhHPNM)2a0!AAAAA'' 91 = Num 130"
    using calcEntropy_rounds [OF acc, of 91 "''TRQUVhHPNM)2a0!AAAAA''"] by simp
  have b: "calcEntropy log2_rounded ''TRQUVhHPNM)2a0!AAAAA'' 91 = Num (js_round (20 * log 2 91))"
    using calcEntropy_rounds [OF acc, of 91 "''TRQUVhHPNM)2a0!AAAAA''"] far by simp
  have c: "calcEntropy log2_rounded ''TRQUVhHPNM)2'' 26 = Num 56"
    using calcEntropy_rounds [OF acc, of 26 "''TRQUVhHPNM)2''"] by simp
  have d: "calcEntropy log2_rounded ''TRQUVhHPNM)2'' 91 = Num 78"
    using calcEntropy_rounds [OF acc, of 91 "''TRQUVhHPNM)2''"] by simp
  from acc far a b c d show ?thesis by simp
qed

text \<open>
  \<open>20 * log2(91)\<close> is about 130.16 and \<open>12 * log2(91)\<close> about 78.09: the estimates
  are 130 and 78, and 131 and 79 are more than \<open>1/2\<close> away from the products, so they
  are not what rounding the products to the nearest integer gives.
\<close>

theorem calcEntropy_rounds_counterexample:
  "calcEntropy log2_rounded ''TRQUVhHPNM)2a0!AAAAA'' 91 = Num 130 \<and>
   calcEntropy log2_rounded ''TRQUVhHPNM)2a0!AAAAA'' 91 \<noteq> Num 131 \<and>
   1 / 2 < 131 - 20 * log 2 91 \<and>
   calcEntropy log2_rounded ''TRQUVhHPNM)2'' 91 = Num 78 \<and>
   calcEntropy log2_rounded ''TRQUVhHPNM)2'' 91 \<noteq> Num 79 \<and>
   1 / 2 < 79 - 12 * log 2 91"
proof -
  have a: "calcEntropy log2_rounded ''TRQUVhHPNM)2a0!AAAAA'' 91 = Num 130"
    by (rule calcEntropy_20_91 [OF accurate_log2_rounded]) simp
  have b: "calcEntropy log2_rounded ''TRQUVhHPNM)2'' 91 = Num 78"
    by (rule calcEntropy_12_91 [OF accurate_log2_rounded]) simp
  have c: "1 / 2 < 131 - 20 * log 2 91" "1 / 2 < 79 - 12 * log 2 91"
    using log2_91_bounds by simp_all
  from a b c show ?thesis by simp
qed

end
